theory Spec2Isabelle
  imports Complex_Main
begin

section \<open>The test data generator \<^verbatim>\<open>scripts/generate_test_data.py\<close>\<close>

text \<open>
  The script writes a CSV file of random numeric, categorical and text columns.
  Its functions are embedded below as HOL functions. The random number generator, the
  wall clock and the file system are explicit state: every possible behaviour of the
  script on some machine corresponds to one value of that state, so a theorem that
  holds for every state holds for every run.
\<close>

subsection \<open>Characters and decimal numerals\<close>

definition comma :: char where "comma = CHR '',''"
definition dquote :: char where "dquote = CHR 0x22"
definition CR :: char where "CR = CHR 0x0D"
definition LF :: char where "LF = CHR 0x0A"

text \<open>The characters that make Python's \<^verbatim>\<open>csv\<close> writer quote a field.\<close>

definition special_chars :: "char list" where
  "special_chars = [comma, dquote, CR, LF]"

definition digit_char :: "nat \<Rightarrow> char" where
  "digit_char d = ''0123456789'' ! (d mod 10)"

text \<open>\<^verbatim>\<open>str(n)\<close> for a Python integer: decimal digits, most significant first.\<close>

fun str_nat :: "nat \<Rightarrow> string" where
  "str_nat n = (if n < 10 then [digit_char n] else str_nat (n div 10) @ [digit_char (n mod 10)])"

declare str_nat.simps [simp del]

definition str_int :: "int \<Rightarrow> string" where
  "str_int i = (if i < 0 then CHR ''-'' # str_nat (nat (- i)) else str_nat (nat i))"

text \<open>\<^verbatim>\<open>range(n)\<close>: the integers \<open>0, ..., n - 1\<close>; empty when \<open>n \<le> 0\<close>.\<close>

definition py_range :: "int \<Rightarrow> int list" where
  "py_range n = map int [0..<nat n]"

subsection \<open>Errors\<close>

datatype error = ValueError | IndexError | OSError | ZeroDivisionError | OverflowError

text \<open>Python list indexing \<^verbatim>\<open>xs[i]\<close>: negative indices count from the end.\<close>

definition py_index :: "'a list \<Rightarrow> int \<Rightarrow> error + 'a" where
  "py_index xs i =
     (if 0 \<le> i \<and> i < int (length xs) then Inr (xs ! nat i)
      else if i < 0 \<and> - int (length xs) \<le> i then Inr (xs ! nat (int (length xs) + i))
      else Inl IndexError)"

subsection \<open>The column partition (lines 26 to 28)\<close>

text \<open>
  Python's \<^verbatim>\<open>//\<close> rounds towards minus infinity, as \<open>div\<close> on \<open>int\<close> does.
\<close>

definition numeric_cols :: "int \<Rightarrow> int" where
  "numeric_cols num_cols = num_cols div 3"

definition categorical_cols :: "int \<Rightarrow> int" where
  "categorical_cols num_cols = num_cols div 3"

definition text_cols :: "int \<Rightarrow> int" where
  "text_cols num_cols = num_cols - numeric_cols num_cols - categorical_cols num_cols"

subsection \<open>The header (lines 37 to 40)\<close>

definition headers :: "int \<Rightarrow> string list" where
  "headers num_cols =
     (let hs = [];
          hs = hs @ map (\<lambda>i. ''numeric_'' @ str_int i) (py_range (numeric_cols num_cols));
          hs = hs @ map (\<lambda>i. ''category_'' @ str_int i) (py_range (categorical_cols num_cols));
          hs = hs @ map (\<lambda>i. ''text_'' @ str_int i) (py_range (text_cols num_cols))
      in hs)"

subsection \<open>Floating-point samples and the \<^verbatim>\<open>.2f\<close> format\<close>

text \<open>
  A finite Python float is \<open>(-1)^neg * mant * 2^expo\<close>. \<^verbatim>\<open>f"{x:.2f}"\<close> prints the
  decimal with two fraction digits that is nearest to the exact value of \<open>x\<close>, ties to
  even, with a minus sign when the sign bit is set.
\<close>

record pyfloat =
  neg :: bool
  mant :: nat
  expo :: int

definition round_half_even :: "nat \<Rightarrow> nat \<Rightarrow> nat" where
  "round_half_even a b =
     (let q = a div b; r = a mod b
      in if 2 * r < b then q else if b < 2 * r then q + 1 else if even q then q else q + 1)"

definition hundredths :: "pyfloat \<Rightarrow> nat" where
  "hundredths x =
     (if 0 \<le> expo x then mant x * 2 ^ nat (expo x) * 100
      else round_half_even (mant x * 100) (2 ^ nat (- expo x)))"

definition format_2f :: "pyfloat \<Rightarrow> string" where
  "format_2f x =
     (let h = hundredths x
      in (if neg x then ''-'' else []) @ str_nat (h div 100) @ ''.''
         @ [digit_char (h div 10 mod 10), digit_char (h mod 10)])"

text \<open>
  Arithmetic on floats: the exact result is rounded to the nearest double, ties to even.
  A double has a mantissa of at most 53 bits and an exponent of at least \<open>-1074\<close>;
  \<open>fl_round\<close> drops the bits beyond that. Results too large for a double would need a
  further case, which no computation in the script reaches: the only arithmetic on
  floats is \<open>mu + z * sigma\<close> in \<^verbatim>\<open>gauss(100, 50)\<close>, where \<open>z\<close> is at most 9 in
  absolute value. An integer operand is converted to a float first. The sum of two
  floats that cancel is \<open>+0.0\<close>, and \<open>-0.0\<close> only when both are \<open>-0.0\<close>.
\<close>

fun bit_length :: "nat \<Rightarrow> nat" where
  "bit_length n = (if n = 0 then 0 else Suc (bit_length (n div 2)))"

declare bit_length.simps [simp del]

definition fl_round :: "pyfloat \<Rightarrow> pyfloat" where
  "fl_round x =
     (let s = max (int (bit_length (mant x)) - 53) (- 1074 - expo x)
      in if s \<le> 0 then x
         else x\<lparr>mant := round_half_even (mant x) (2 ^ nat s), expo := expo x + s\<rparr>)"

definition float_of_int :: "int \<Rightarrow> pyfloat" where
  "float_of_int n = fl_round \<lparr>neg = (n < 0), mant = nat \<bar>n\<bar>, expo = 0\<rparr>"

definition fl_mul :: "pyfloat \<Rightarrow> pyfloat \<Rightarrow> pyfloat" where
  "fl_mul a b =
     fl_round \<lparr>neg = (neg a \<noteq> neg b), mant = mant a * mant b, expo = expo a + expo b\<rparr>"

definition signed_mant :: "pyfloat \<Rightarrow> int \<Rightarrow> int" where
  "signed_mant a e = (if neg a then - 1 else 1) * int (mant a) * 2 ^ nat (expo a - e)"

definition fl_add :: "pyfloat \<Rightarrow> pyfloat \<Rightarrow> pyfloat" where
  "fl_add a b =
     (let e = min (expo a) (expo b); s = signed_mant a e + signed_mant b e
      in fl_round \<lparr>neg = (if s = 0 then neg a \<and> neg b else s < 0), mant = nat \<bar>s\<bar>, expo = e\<rparr>)"

subsection \<open>The random number generator\<close>

text \<open>
  The generator is a tape of raw integers, read by \<^verbatim>\<open>random\<close>, \<^verbatim>\<open>randint\<close>,
  \<^verbatim>\<open>choice\<close> and \<^verbatim>\<open>choices\<close>, and a tape of floats, read by \<^verbatim>\<open>gauss\<close>.
  Each function below returns what the \<^verbatim>\<open>random\<close> module documents: \<^verbatim>\<open>random()\<close> a
  multiple of \<open>2^-53\<close> in \<open>[0, 1)\<close>, \<^verbatim>\<open>randint(a, b)\<close> an integer \<open>a \<le> n \<le> b\<close>
  (\<^verbatim>\<open>ValueError\<close> on an empty range), \<^verbatim>\<open>choice(seq)\<close> an element of \<open>seq\<close>
  (\<^verbatim>\<open>IndexError\<close> on an empty one), \<^verbatim>\<open>choices(population, k=k)\<close> the list of the
  elements at \<open>floor(random() * len(population))\<close> for \<open>k\<close> draws. How the values are
  distributed is a property of the tapes, not of the script. \<^verbatim>\<open>gauss(mu, sigma)\<close>
  returns \<open>mu + z * sigma\<close>, computed on floats, where \<open>z\<close> is the library's standard
  normal variate: the product of a cosine and of \<open>sqrt(-2 * ln(1 - random()))\<close>, hence a
  double of absolute value at most \<open>sqrt(-2 * ln(2^-53))\<close>, which is less than 9. The
  variate is read from the tape: an entry is rounded to a double, and one beyond 9 is
  read as zero, so that the entries stand for exactly the doubles from -9 to 9.
  The literals \<^verbatim>\<open>0.05\<close>, \<^verbatim>\<open>0.02\<close> and \<^verbatim>\<open>0.03\<close> are doubles that differ from the
  decimal fractions by less than \<open>2^-57\<close>; no multiple of \<open>2^-53\<close> lies in between, so
  the comparisons with \<^verbatim>\<open>random()\<close> are the comparisons with the decimal fractions.
\<close>

record rng =
  bits :: "nat \<Rightarrow> nat"
  normals :: "nat \<Rightarrow> pyfloat"

definition next_bits :: "rng \<Rightarrow> nat \<times> rng" where
  "next_bits g = (bits g 0, g\<lparr>bits := \<lambda>n. bits g (Suc n)\<rparr>)"

definition random_py :: "rng \<Rightarrow> rat \<times> rng" where
  "random_py g = (let (k, g') = next_bits g in (of_nat (k mod 2 ^ 53) / 2 ^ 53, g'))"

definition randint :: "int \<Rightarrow> int \<Rightarrow> rng \<Rightarrow> error + int \<times> rng" where
  "randint a b g =
     (if b < a then Inl ValueError
      else let (k, g') = next_bits g in Inr (a + int (k mod nat (b - a + 1)), g'))"

definition choice :: "'a list \<Rightarrow> rng \<Rightarrow> error + 'a \<times> rng" where
  "choice seq g =
     (if seq = [] then Inl IndexError
      else let (k, g') = next_bits g in Inr (seq ! (k mod length seq), g'))"

fun choices_loop :: "int list \<Rightarrow> 'a list \<Rightarrow> 'a list \<Rightarrow> rng \<Rightarrow> 'a list \<times> rng" where
  "choices_loop [] population acc g = (acc, g)"
| "choices_loop (i # rest) population acc g =
     (let (u, g') = random_py g
      in choices_loop rest population
           (acc @ [population ! nat (floor (u * of_nat (length population)))]) g')"

definition choices :: "'a list \<Rightarrow> int \<Rightarrow> rng \<Rightarrow> error + 'a list \<times> rng" where
  "choices population k g =
     (if population = [] \<and> 0 < k then Inl IndexError
      else Inr (choices_loop (py_range k) population [] g))"

definition std_normal :: "pyfloat \<Rightarrow> pyfloat" where
  "std_normal t =
     (let z = fl_round t
      in if mant z * 2 ^ nat (expo z) \<le> 9 * 2 ^ nat (- expo z) then z
         else z\<lparr>mant := 0, expo := 0\<rparr>)"

definition gauss :: "int \<Rightarrow> int \<Rightarrow> rng \<Rightarrow> pyfloat \<times> rng" where
  "gauss mu sigma g =
     (let z = std_normal (normals g 0)
      in (fl_add (float_of_int mu) (fl_mul z (float_of_int sigma)),
          g\<lparr>normals := \<lambda>n. normals g (Suc n)\<rparr>))"

subsection \<open>The \<^verbatim>\<open>csv\<close> writer, the file system and the clock\<close>

text \<open>
  \<^verbatim>\<open>csv.writer(f)\<close> uses the \<^verbatim>\<open>excel\<close> dialect: fields are joined by commas and the
  record ends with CR LF; a field that contains a comma, a double quote, CR or LF is
  enclosed in double quotes with its double quotes doubled; a record that consists of one
  empty field is written as two double quotes, so that it differs from the empty record.
\<close>

definition needs_quote :: "string \<Rightarrow> bool" where
  "needs_quote f = list_ex (\<lambda>c. c \<in> set special_chars) f"

definition quote_field :: "string \<Rightarrow> string" where
  "quote_field f =
     dquote # concat (map (\<lambda>c. if c = dquote then [dquote, dquote] else [c]) f) @ [dquote]"

definition render_field :: "string \<Rightarrow> string" where
  "render_field f = (if needs_quote f then quote_field f else f)"

fun join_fields :: "string list \<Rightarrow> string" where
  "join_fields [] = []"
| "join_fields [f] = f"
| "join_fields (f # fs) = f @ comma # join_fields fs"

definition writerow_str :: "string list \<Rightarrow> string" where
  "writerow_str row =
     (if row = [[]] then [dquote, dquote] else join_fields (map render_field row)) @ [CR, LF]"

text \<open>
  The world: the files by path, which paths can be opened for writing, the random number
  generator, and the successive readings of \<^verbatim>\<open>datetime.now()\<close> in microseconds.
  The text printed on the console is not part of the model, and neither is a failure of
  \<^verbatim>\<open>print\<close> itself (a console encoding without the check mark, for example). Of the
  failures of the file system, the one modelled is that the path cannot be opened.
\<close>

record world =
  files :: "string \<Rightarrow> string option"
  writable :: "string \<Rightarrow> bool"
  rand :: rng
  clock :: "nat \<Rightarrow> int"

definition now :: "world \<Rightarrow> int \<times> world" where
  "now w = (clock w 0, w\<lparr>clock := \<lambda>n. clock w (Suc n)\<rparr>)"

text \<open>\<^verbatim>\<open>open(path, 'w')\<close> creates the file or truncates it.\<close>

definition open_w :: "string \<Rightarrow> world \<Rightarrow> error + world" where
  "open_w path w =
     (if writable w path then Inr (w\<lparr>files := (files w)(path \<mapsto> [])\<rparr>) else Inl OSError)"

definition writerow :: "string \<Rightarrow> string list \<Rightarrow> world \<Rightarrow> world" where
  "writerow path row w =
     w\<lparr>files := (files w)(path \<mapsto>
          (case files w path of None \<Rightarrow> [] | Some c \<Rightarrow> c) @ writerow_str row)\<rparr>"

definition getsize :: "string \<Rightarrow> world \<Rightarrow> error + int" where
  "getsize path w = (case files w path of None \<Rightarrow> Inl OSError | Some c \<Rightarrow> Inr (int (length c)))"

subsection \<open>The category pools (lines 43 to 46)\<close>

fun make_categories :: "int list \<Rightarrow> rng \<Rightarrow> error + string list list \<times> rng" where
  "make_categories [] g = Inr ([], g)"
| "make_categories (i # rest) g =
     (case randint 5 50 g of
        Inl e \<Rightarrow> Inl e
      | Inr (n, g1) \<Rightarrow>
          (case make_categories rest g1 of
             Inl e \<Rightarrow> Inl e
           | Inr (pools, g2) \<Rightarrow>
               Inr (map (\<lambda>j. ''Cat'' @ str_int i @ ''_'' @ str_int j) (py_range n) # pools, g2)))"

subsection \<open>One row (lines 55 to 77)\<close>

definition ascii_lowercase :: string where
  "ascii_lowercase = ''abcdefghijklmnopqrstuvwxyz''"

definition ascii_uppercase :: string where
  "ascii_uppercase = ''ABCDEFGHIJKLMNOPQRSTUVWXYZ''"

definition ascii_letters :: string where
  "ascii_letters = ascii_lowercase @ ascii_uppercase"

definition digits :: string where
  "digits = ''0123456789''"

fun numeric_loop :: "int list \<Rightarrow> string list \<Rightarrow> rng \<Rightarrow> string list \<times> rng" where
  "numeric_loop [] row g = (row, g)"
| "numeric_loop (i # rest) row g =
     (let (u, g1) = random_py g
      in if u < 0.05 then numeric_loop rest (row @ [[]]) g1
         else let (x, g2) = gauss 100 50 g1
              in numeric_loop rest (row @ [format_2f x]) g2)"

fun categorical_loop ::
  "int list \<Rightarrow> string list list \<Rightarrow> string list \<Rightarrow> rng \<Rightarrow> error + string list \<times> rng" where
  "categorical_loop [] categories row g = Inr (row, g)"
| "categorical_loop (i # rest) categories row g =
     (let (u, g1) = random_py g
      in if u < 0.02 then categorical_loop rest categories (row @ [[]]) g1
         else (case py_index categories i of
                 Inl e \<Rightarrow> Inl e
               | Inr pool \<Rightarrow>
                   (case choice pool g1 of
                      Inl e \<Rightarrow> Inl e
                    | Inr (v, g2) \<Rightarrow> categorical_loop rest categories (row @ [v]) g2)))"

fun text_loop :: "int list \<Rightarrow> string list \<Rightarrow> rng \<Rightarrow> error + string list \<times> rng" where
  "text_loop [] row g = Inr (row, g)"
| "text_loop (i # rest) row g =
     (let (u, g1) = random_py g
      in if u < 0.03 then text_loop rest (row @ [[]]) g1
         else (case randint 10 50 g1 of
                 Inl e \<Rightarrow> Inl e
               | Inr (length_py, g2) \<Rightarrow>
                   (case choices (ascii_letters @ digits @ '' '') length_py g2 of
                      Inl e \<Rightarrow> Inl e
                    | Inr (cs, g3) \<Rightarrow> text_loop rest (row @ [cs]) g3)))"

definition gen_row :: "int \<Rightarrow> string list list \<Rightarrow> rng \<Rightarrow> error + string list \<times> rng" where
  "gen_row num_cols categories g =
     (let (row, g1) = numeric_loop (py_range (numeric_cols num_cols)) [] g
      in case categorical_loop (py_range (categorical_cols num_cols)) categories row g1 of
           Inl e \<Rightarrow> Inl e
         | Inr (row, g2) \<Rightarrow> text_loop (py_range (text_cols num_cols)) row g2)"

subsection \<open>The run (lines 14 to 95)\<close>

text \<open>
  \<^verbatim>\<open>n / x\<close> for an integer \<open>n\<close> and a float \<open>x\<close> converts \<open>n\<close> to a float first,
  which raises \<^verbatim>\<open>OverflowError\<close> when \<open>n\<close> rounds to \<open>2^1024\<close> or beyond, and then
  raises \<^verbatim>\<open>ZeroDivisionError\<close> when \<open>x\<close> is zero. The elapsed time is given in
  microseconds.
\<close>

definition float_overflow :: "int \<Rightarrow> bool" where
  "float_overflow n = (2 ^ 1024 - 2 ^ 970 \<le> \<bar>n\<bar>)"

definition int_div_float :: "int \<Rightarrow> int \<Rightarrow> error + unit" where
  "int_div_float n elapsed =
     (if float_overflow n then Inl OverflowError
      else if elapsed = 0 then Inl ZeroDivisionError else Inr ())"

text \<open>
  The progress indicator (lines 83 to 86): \<^verbatim>\<open>rate = (row_num + 1) / elapsed\<close>, then
  \<^verbatim>\<open>remaining = (rows - row_num - 1) / rate\<close>, where the rate is not zero.
\<close>

definition progress :: "int \<Rightarrow> int \<Rightarrow> int \<Rightarrow> error + unit" where
  "progress row_num rows elapsed =
     (case int_div_float (row_num + 1) elapsed of
        Inl e \<Rightarrow> Inl e
      | Inr u \<Rightarrow> if float_overflow (rows - row_num - 1) then Inl OverflowError else Inr ())"

text \<open>
  The body of the \<^verbatim>\<open>for row_num in range(rows)\<close> loop. After every 100000th row the
  progress indicator reads the clock. An exception leaves the \<^verbatim>\<open>with\<close> block, which
  closes the file with the rows written so far.
\<close>

fun rows_loop ::
  "int list \<Rightarrow> string \<Rightarrow> int \<Rightarrow> int \<Rightarrow> string list list \<Rightarrow> int \<Rightarrow> world
     \<Rightarrow> (error + unit) \<times> world" where
  "rows_loop [] output_path rows num_cols categories start_time w = (Inr (), w)"
| "rows_loop (row_num # rest) output_path rows num_cols categories start_time w =
     (case gen_row num_cols categories (rand w) of
        Inl e \<Rightarrow> (Inl e, w)
      | Inr (row, g) \<Rightarrow>
          (let w1 = writerow output_path row (w\<lparr>rand := g\<rparr>)
           in if (row_num + 1) mod 100000 = 0
              then (let (t, w2) = now w1; elapsed = t - start_time
                    in case progress row_num rows elapsed of
                         Inl e \<Rightarrow> (Inl e, w2)
                       | Inr u \<Rightarrow>
                           rows_loop rest output_path rows num_cols categories start_time w2)
              else rows_loop rest output_path rows num_cols categories start_time w1))"

text \<open>
  The whole function. After the loop the summary divides \<^verbatim>\<open>rows\<close> by the elapsed
  time (line 95).
\<close>

definition generate_test_csv :: "string \<Rightarrow> int \<Rightarrow> int \<Rightarrow> world \<Rightarrow> (error + unit) \<times> world" where
  "generate_test_csv output_path rows num_cols w =
     (case make_categories (py_range (categorical_cols num_cols)) (rand w) of
        Inl e \<Rightarrow> (Inl e, w)
      | Inr (categories, g) \<Rightarrow>
          (let (start_time, w1) = now (w\<lparr>rand := g\<rparr>)
           in case open_w output_path w1 of
                Inl e \<Rightarrow> (Inl e, w1)
              | Inr w2 \<Rightarrow>
                  (let w3 = writerow output_path (headers num_cols) w2
                   in case rows_loop (py_range rows) output_path rows num_cols categories
                             start_time w3 of
                        (Inl e, w4) \<Rightarrow> (Inl e, w4)
                      | (Inr u, w4) \<Rightarrow>
                          (let (t, w5) = now w4; elapsed = t - start_time
                           in case getsize output_path w5 of
                                Inl e \<Rightarrow> (Inl e, w5)
                              | Inr file_size \<Rightarrow>
                                  (case int_div_float rows elapsed of
                                     Inl e \<Rightarrow> (Inl e, w5)
                                   | Inr u \<Rightarrow> (Inr (), w5))))))"

subsection \<open>The command line (lines 98 to 117)\<close>

text \<open>
  The built-in \<^verbatim>\<open>int\<close> is a parameter \<open>int_py\<close> of \<open>main\<close>: \<open>int_py s\<close> is
  \<open>Some n\<close> when \<^verbatim>\<open>int(s)\<close> returns \<open>n\<close> and \<open>None\<close> when it raises
  \<^verbatim>\<open>ValueError\<close>, the only exception it raises for a string. Which strings it accepts
  depends on the interpreter (its table of Unicode decimal digits and white space, its
  limit on the number of digits), so the properties of \<open>main\<close> are proved for every
  such function.
\<close>

definition main ::
  "(string \<Rightarrow> int option) \<Rightarrow> string list \<Rightarrow> world \<Rightarrow> (error + unit) \<times> world" where
  "main int_py argv w =
     (let num_rows = 5000000; num_cols = 100; output = ''test_5M_100cols.csv''
      in case (if 1 < length argv then int_py (argv ! 1) else Some num_rows) of
           None \<Rightarrow> (Inl ValueError, w)
         | Some num_rows \<Rightarrow>
             (case (if 2 < length argv then int_py (argv ! 2) else Some num_cols) of
                None \<Rightarrow> (Inl ValueError, w)
              | Some num_cols \<Rightarrow>
                  (let output = (if 3 < length argv then argv ! 3 else output)
                   in generate_test_csv output num_rows num_cols w)))"

text \<open>The interpreter exits with status 1 on an unhandled exception and 0 otherwise.\<close>

definition exit_status :: "error + unit \<Rightarrow> nat" where
  "exit_status r = (case r of Inl e \<Rightarrow> 1 | Inr u \<Rightarrow> 0)"

text \<open>
  One such function: \<^verbatim>\<open>int\<close> of CPython 3.11 on the strings whose characters are code
  points below 256, a character of the model standing for the code point of its number.
  In a string that is not pure ASCII, the code points \<open>0x85\<close> and \<open>0xA0\<close> count as
  spaces and every other code point from 127 on is invalid (there is no decimal digit
  between 128 and 255). Then white space (\<open>0x09\<close> to \<open>0x0D\<close> and \<open>0x20\<close>) is dropped
  at both ends; what remains is an optional sign and decimal digits, where single
  underscores may separate digits; more than 4300 digits are refused.
\<close>

definition is_space :: "char \<Rightarrow> bool" where
  "is_space c = (c \<in> set [CHR 0x09, CHR 0x0A, CHR 0x0B, CHR 0x0C, CHR 0x0D, CHR 0x20])"

definition to_ascii :: "string \<Rightarrow> string" where
  "to_ascii s =
     (if list_all (\<lambda>c. (of_char c :: nat) < 128) s then s
      else map (\<lambda>c. if (of_char c :: nat) < 127 then c
                     else if c = CHR 0x85 \<or> c = CHR 0xA0 then CHR 0x20 else CHR ''?'') s)"

definition strip :: "string \<Rightarrow> string" where
  "strip s = rev (dropWhile is_space (rev (dropWhile is_space s)))"

definition digit_val :: "char \<Rightarrow> nat option" where
  "digit_val c =
     (let n = (of_char c :: nat) in if 48 \<le> n \<and> n \<le> 57 then Some (n - 48) else None)"

fun parse_digits :: "string \<Rightarrow> nat \<Rightarrow> bool \<Rightarrow> nat option" where
  "parse_digits [] acc after_digit = (if after_digit then Some acc else None)"
| "parse_digits (c # cs) acc after_digit =
     (if c = CHR ''_'' then (if after_digit then parse_digits cs acc False else None)
      else (case digit_val c of
              None \<Rightarrow> None
            | Some d \<Rightarrow> parse_digits cs (10 * acc + d) True))"

definition int_max_str_digits :: nat where
  "int_max_str_digits = 4300"

definition py_int :: "string \<Rightarrow> int option" where
  "py_int s =
     (let t = strip (to_ascii s);
          (sign, body) = (case t of
                            c # cs \<Rightarrow> if c = CHR ''-'' then (- 1, cs)
                                       else if c = CHR ''+'' then (1, cs) else (1, t)
                          | [] \<Rightarrow> (1, t))
      in if int_max_str_digits < length (filter (\<lambda>c. digit_val c \<noteq> None) body) then None
         else map_option (\<lambda>n. sign * int n) (parse_digits body 0 False))"

subsection \<open>Vocabulary of the properties\<close>

text \<open>
  A field is plain when it has none of the characters that make the writer quote it.
  \<open>decimal_2f\<close> recognises an optional minus sign, one or more digits, a decimal point
  and exactly two digits. \<open>read_csv\<close> reads a file back without any quote handling:
  records end with CR LF, fields are separated by commas.
\<close>

definition plain :: "string \<Rightarrow> bool" where
  "plain f = list_all (\<lambda>c. c \<notin> set special_chars) f"

definition is_digit :: "char \<Rightarrow> bool" where
  "is_digit c = (c \<in> set digits)"

definition val_digits :: "string \<Rightarrow> nat" where
  "val_digits s = foldl (\<lambda>a c. 10 * a + (of_char c - 48)) 0 s"

definition decimal_2f :: "string \<Rightarrow> bool" where
  "decimal_2f s =
     (case rev s of
        d2 # d1 # p # rest \<Rightarrow>
          is_digit d2 \<and> is_digit d1 \<and> p = CHR ''.'' \<and>
          (let ip = rev rest;
               ds = (case ip of c # cs \<Rightarrow> if c = CHR ''-'' then cs else ip | [] \<Rightarrow> ip)
           in ds \<noteq> [] \<and> list_all is_digit ds)
      | _ \<Rightarrow> False)"

text \<open>The number that a float stands for.\<close>

definition float_val :: "pyfloat \<Rightarrow> rat" where
  "float_val x = (if neg x then - 1 else 1) * of_nat (mant x) * 2 powi (expo x)"

definition alphabet :: string where
  "alphabet = ascii_letters @ digits @ '' ''"

definition numeric_ok :: "string \<Rightarrow> bool" where
  "numeric_ok f = (f = [] \<or> decimal_2f f)"

definition text_ok :: "string \<Rightarrow> bool" where
  "text_ok f = (f = [] \<or> (10 \<le> length f \<and> length f \<le> 50 \<and> list_all (\<lambda>c. c \<in> set alphabet) f))"

definition pool_ok :: "nat \<Rightarrow> string list \<Rightarrow> bool" where
  "pool_ok i pool =
     (5 \<le> length pool \<and> length pool \<le> 50 \<and> distinct pool \<and>
      pool = map (\<lambda>j. ''Cat'' @ str_nat i @ ''_'' @ str_nat j) [0..<length pool])"

definition cats_ok :: "int \<Rightarrow> string list list \<Rightarrow> bool" where
  "cats_ok num_cols categories =
     (length categories = nat (categorical_cols num_cols) \<and>
      (\<forall>i < length categories. pool_ok i (categories ! i)))"

definition row_ok :: "int \<Rightarrow> string list list \<Rightarrow> string list \<Rightarrow> bool" where
  "row_ok num_cols categories row =
     (let n = nat (numeric_cols num_cols); c = nat (categorical_cols num_cols);
          t = nat (text_cols num_cols)
      in length row = n + c + t
         \<and> list_all numeric_ok (take n row)
         \<and> (\<forall>i < c. row ! (n + i) = [] \<or> row ! (n + i) \<in> set (categories ! i))
         \<and> list_all text_ok (drop (n + c) row))"

text \<open>
  The world at the start of the row loop: the pools are made, the clock has been read
  once, the file is open and holds the header.
\<close>

definition start_world :: "string \<Rightarrow> int \<Rightarrow> rng \<Rightarrow> world \<Rightarrow> world" where
  "start_world path num_cols g w =
     writerow path (headers num_cols)
       (w\<lparr>rand := g, clock := \<lambda>n. clock w (Suc n), files := (files w)(path \<mapsto> [])\<rparr>)"

fun split_at :: "char \<Rightarrow> string \<Rightarrow> string \<Rightarrow> string list" where
  "split_at d cur [] = [cur]"
| "split_at d cur (c # cs) =
     (if c = d then cur # split_at d [] cs else split_at d (cur @ [c]) cs)"

fun split_crlf :: "string \<Rightarrow> string \<Rightarrow> string list" where
  "split_crlf cur [] = (if cur = [] then [] else [cur])"
| "split_crlf cur [c] = [cur @ [c]]"
| "split_crlf cur (c # d # cs) =
     (if c = CR \<and> d = LF then cur # split_crlf [] cs else split_crlf (cur @ [c]) (d # cs))"

definition read_csv :: "string \<Rightarrow> string list list" where
  "read_csv s = map (split_at comma []) (split_crlf [] s)"

text \<open>
  Two generator states and a world for evaluating the functions on concrete inputs: in
  \<open>rng_zero\<close> every draw of \<^verbatim>\<open>random()\<close> is 0, so every field is null; in
  \<open>rng_half\<close> every draw is 1/2 and every standard normal variate is \<open>67 / 1024\<close>.
  In \<open>world_zero\<close> there are no files, every path can be opened, and the clock
  advances by one microsecond per reading.
\<close>

definition rng_zero :: rng where
  "rng_zero = \<lparr>bits = (\<lambda>n. 0), normals = (\<lambda>n. \<lparr>neg = False, mant = 0, expo = 0\<rparr>)\<rparr>"

definition world_zero :: world where
  "world_zero = \<lparr>files = (\<lambda>p. None), writable = (\<lambda>p. True), rand = rng_zero,
                  clock = (\<lambda>n. int n)\<rparr>"

definition rng_half :: rng where
  "rng_half = \<lparr>bits = (\<lambda>n. 2 ^ 52), normals = (\<lambda>n. \<lparr>neg = False, mant = 67, expo = - 10\<rparr>)\<rparr>"

section \<open>Properties\<close>

subsection \<open>Decimal numerals and formatted floats\<close>

lemma digit_char_digit: "is_digit (digit_char d)"
proof -
  have "d mod 10 < length ''0123456789''" by simp
  then have "''0123456789'' ! (d mod 10) \<in> set ''0123456789''" by (rule nth_mem)
  then show ?thesis by (simp only: is_digit_def digits_def digit_char_def)
qed

lemma str_nat_digits: "list_all is_digit (str_nat n)"
proof (induction n rule: str_nat.induct)
  case (1 n)
  show ?case
  proof (cases "n < 10")
    case True
    then show ?thesis by (subst str_nat.simps) (simp add: digit_char_digit)
  next
    case False
    with 1 show ?thesis by (subst str_nat.simps) (simp add: digit_char_digit)
  qed
qed

lemma str_nat_nonempty: "str_nat n \<noteq> []"
  by (subst str_nat.simps) simp

lemma is_digit_plain: "is_digit c \<Longrightarrow> c \<notin> set special_chars"
  by (auto simp: is_digit_def digits_def special_chars_def comma_def dquote_def CR_def LF_def)

lemma is_digit_not_minus: "is_digit c \<Longrightarrow> c \<noteq> CHR ''-''"
  by (auto simp: is_digit_def digits_def)

lemma val_digit_char: "d < 10 \<Longrightarrow> of_char (digit_char d) - 48 = d"
proof -
  assume "d < 10"
  then have "d \<in> {0,1,2,3,4,5,6,7,8,9}" by auto
  then show ?thesis by (auto simp: digit_char_def)
qed

lemma val_digits_snoc: "val_digits (s @ [c]) = 10 * val_digits s + (of_char c - 48)"
  by (simp add: val_digits_def)

lemma val_digits_str_nat: "val_digits (str_nat n) = n"
proof (induction n rule: str_nat.induct)
  case (1 n)
  show ?case
  proof (cases "n < 10")
    case True
    then show ?thesis
      by (subst str_nat.simps) (simp add: val_digits_def val_digit_char)
  next
    case False
    with 1 have "val_digits (str_nat (n div 10)) = n div 10" by simp
    with False show ?thesis
      by (subst str_nat.simps) (simp add: val_digits_snoc val_digit_char)
  qed
qed

lemma str_nat_inj: "str_nat m = str_nat n \<Longrightarrow> m = n"
  by (metis val_digits_str_nat)

lemma str_int_int: "str_int (int n) = str_nat n"
  by (simp add: str_int_def)

lemma decimal_2f_format: "decimal_2f (format_2f x)"
proof -
  let ?h = "hundredths x"
  have ds: "list_all is_digit (str_nat (?h div 100))" by (rule str_nat_digits)
  have ne: "str_nat (?h div 100) \<noteq> []" by (rule str_nat_nonempty)
  have hdnm: "hd (str_nat (?h div 100)) \<noteq> CHR ''-''"
    using ds ne by (cases "str_nat (?h div 100)") (auto simp: is_digit_not_minus)
  show ?thesis
    using ds ne hdnm
    by (cases "str_nat (?h div 100)")
       (auto simp: decimal_2f_def format_2f_def Let_def digit_char_digit)
qed

lemma plain_format: "plain (format_2f x)"
proof -
  have "list_all (\<lambda>c. c \<notin> set special_chars) (str_nat n)" for n
    using str_nat_digits [of n] by (auto simp: list_all_iff is_digit_plain)
  moreover have "CHR ''-'' \<notin> set special_chars" "CHR ''.'' \<notin> set special_chars"
    by (simp_all add: special_chars_def comma_def dquote_def CR_def LF_def)
  ultimately show ?thesis
    by (simp add: plain_def format_2f_def Let_def is_digit_plain digit_char_digit)
qed

subsection \<open>The random number generator never fails within its contract\<close>

lemma random_py_range: "0 \<le> fst (random_py g) \<and> fst (random_py g) < 1"
proof -
  have "(of_nat (k mod 2 ^ 53) :: rat) < 2 ^ 53" for k :: nat
  proof -
    have "k mod 2 ^ 53 < 2 ^ 53" by simp
    then have "(of_nat (k mod 2 ^ 53) :: rat) < of_nat (2 ^ 53)" by (simp only: of_nat_less_iff)
    then show ?thesis by simp
  qed
  then show ?thesis
    by (simp add: random_py_def next_bits_def)
qed

lemma randint_ok:
  assumes "a \<le> b"
  shows "\<exists>n g'. randint a b g = Inr (n, g') \<and> a \<le> n \<and> n \<le> b"
proof -
  have pos: "0 < nat (b - a + 1)" using assms by simp
  have "bits g 0 mod nat (b - a + 1) < nat (b - a + 1)" using pos by (rule mod_less_divisor)
  then have "int (bits g 0 mod nat (b - a + 1)) \<le> b - a" using assms by linarith
  then show ?thesis using assms by (simp add: randint_def next_bits_def)
qed

lemma choice_ok:
  assumes "seq \<noteq> []"
  shows "\<exists>v g'. choice seq g = Inr (v, g') \<and> v \<in> set seq"
  using assms by (simp add: choice_def next_bits_def)

lemma floor_index:
  fixes u :: rat
  assumes "0 \<le> u" "u < 1" "0 < n"
  shows "nat (floor (u * of_nat n)) < n"
proof -
  have "u * of_nat n < of_nat n" using assms by simp
  then have "floor (u * of_nat n) < int n" by (simp add: floor_less_iff)
  moreover have "0 \<le> floor (u * of_nat n)" using assms by simp
  ultimately show ?thesis by linarith
qed

lemma choices_loop_ok:
  assumes "population \<noteq> []"
  shows "\<exists>xs g'. choices_loop r population acc g = (acc @ xs, g')
            \<and> length xs = length r \<and> set xs \<subseteq> set population"
proof (induction r arbitrary: acc g)
  case Nil
  show ?case by simp
next
  case (Cons i r)
  obtain u g1 where u: "random_py g = (u, g1)" by (cases "random_py g")
  have "0 \<le> u \<and> u < 1" using random_py_range [of g] u by simp
  then have idx: "nat (floor (u * of_nat (length population))) < length population"
    using assms by (intro floor_index) simp_all
  define x where "x = population ! nat (floor (u * of_nat (length population)))"
  have xin: "x \<in> set population" unfolding x_def using idx by (rule nth_mem)
  from Cons.IH [of "acc @ [x]" g1] obtain xs g' where
    h: "choices_loop r population (acc @ [x]) g1 = ((acc @ [x]) @ xs, g')"
       "length xs = length r" "set xs \<subseteq> set population" by blast
  have "choices_loop (i # r) population acc g = (acc @ (x # xs), g')"
    using u h(1) by (simp add: x_def)
  then show ?case using h(2,3) xin
    by (intro exI [of _ "x # xs"] exI [of _ g']) simp
qed

lemma length_py_range: "length (py_range k) = nat k"
  by (simp add: py_range_def)

lemma choices_ok:
  assumes "population \<noteq> []"
  shows "\<exists>xs g'. choices population k g = Inr (xs, g')
            \<and> length xs = nat k \<and> set xs \<subseteq> set population"
proof -
  from choices_loop_ok [OF assms, of "py_range k" "[]" g]
  obtain xs g' where "choices_loop (py_range k) population [] g = (xs, g')"
    "length xs = length (py_range k)" "set xs \<subseteq> set population" by auto
  then show ?thesis using assms by (simp add: choices_def length_py_range)
qed

subsection \<open>The three column loops and the pools\<close>

lemma numeric_loop_ok:
  "\<exists>fs g'. numeric_loop r row g = (row @ fs, g') \<and> length fs = length r \<and> list_all numeric_ok fs"
proof (induction r arbitrary: row g)
  case Nil
  show ?case by simp
next
  case (Cons i r)
  obtain u g1 where u: "random_py g = (u, g1)" by (cases "random_py g")
  obtain x g2 where x: "gauss 100 50 g1 = (x, g2)" by (cases "gauss 100 50 g1")
  define f where "f = (if u < 0.05 then [] else format_2f x)"
  define g3 where "g3 = (if u < 0.05 then g1 else g2)"
  have step: "numeric_loop (i # r) row g = numeric_loop r (row @ [f]) g3"
    using u x by (simp add: f_def g3_def)
  have fok: "numeric_ok f" by (simp add: f_def numeric_ok_def decimal_2f_format)
  from Cons.IH [of "row @ [f]" g3] obtain fs g' where
    h: "numeric_loop r (row @ [f]) g3 = ((row @ [f]) @ fs, g')" "length fs = length r"
       "list_all numeric_ok fs" by blast
  show ?case using step h fok
    by (intro exI [of _ "f # fs"] exI [of _ g']) simp
qed

lemma text_field_ok:
  assumes "length cs = nat n" "10 \<le> n" "n \<le> 50" "set cs \<subseteq> set alphabet"
  shows "text_ok cs"
  using assms by (auto simp: text_ok_def list_all_iff)

lemma text_loop_ok:
  "\<exists>fs g'. text_loop r row g = Inr (row @ fs, g') \<and> length fs = length r \<and> list_all text_ok fs"
proof (induction r arbitrary: row g)
  case Nil
  show ?case by simp
next
  case (Cons i r)
  obtain u g1 where u: "random_py g = (u, g1)" by (cases "random_py g")
  from randint_ok [of 10 50 g1] obtain n g2 where
    n: "randint 10 50 g1 = Inr (n, g2)" "10 \<le> n" "n \<le> 50" by auto
  have ne: "alphabet \<noteq> []" by (simp add: alphabet_def)
  from choices_ok [OF ne, of n g2] obtain cs g3 where
    cs: "choices alphabet n g2 = Inr (cs, g3)" "length cs = nat n" "set cs \<subseteq> set alphabet"
    by blast
  define f where "f = (if u < 0.03 then [] else cs)"
  define g4 where "g4 = (if u < 0.03 then g1 else g3)"
  have step: "text_loop (i # r) row g = text_loop r (row @ [f]) g4"
    using u n(1) cs(1) by (simp add: f_def g4_def alphabet_def)
  have fok: "text_ok f"
    using text_field_ok [OF cs(2) n(2) n(3) cs(3)] by (simp add: f_def text_ok_def)
  from Cons.IH [of "row @ [f]" g4] obtain fs g' where
    h: "text_loop r (row @ [f]) g4 = Inr ((row @ [f]) @ fs, g')" "length fs = length r"
       "list_all text_ok fs" by blast
  show ?case using step h fok
    by (intro exI [of _ "f # fs"] exI [of _ g']) simp
qed

lemma py_index_nat: "k < length xs \<Longrightarrow> py_index xs (int k) = Inr (xs ! k)"
  by (simp add: py_index_def)

lemma categorical_loop_ok:
  assumes "\<forall>k < length ks. ks ! k < length categories \<and> categories ! (ks ! k) \<noteq> []"
  shows "\<exists>fs g'. categorical_loop (map int ks) categories row g = Inr (row @ fs, g')
           \<and> length fs = length ks
           \<and> (\<forall>k < length ks. fs ! k = [] \<or> fs ! k \<in> set (categories ! (ks ! k)))"
  using assms
proof (induction ks arbitrary: row g)
  case Nil
  show ?case by simp
next
  case (Cons i ks)
  have i: "i < length categories" "categories ! i \<noteq> []"
    using Cons.prems by auto
  have rest: "\<forall>k < length ks. ks ! k < length categories \<and> categories ! (ks ! k) \<noteq> []"
    using Cons.prems by auto
  obtain u g1 where u: "random_py g = (u, g1)" by (cases "random_py g")
  from choice_ok [OF i(2), of g1] obtain v g2 where
    v: "choice (categories ! i) g1 = Inr (v, g2)" "v \<in> set (categories ! i)" by blast
  define f where "f = (if u < 0.02 then [] else v)"
  define g3 where "g3 = (if u < 0.02 then g1 else g2)"
  have step: "categorical_loop (map int (i # ks)) categories row g
                = categorical_loop (map int ks) categories (row @ [f]) g3"
    using u v(1) i(1) by (simp add: f_def g3_def py_index_nat)
  have fok: "f = [] \<or> f \<in> set (categories ! i)" using v(2) by (simp add: f_def)
  from Cons.IH [OF rest, of "row @ [f]" g3] obtain fs g' where
    h: "categorical_loop (map int ks) categories (row @ [f]) g3 = Inr ((row @ [f]) @ fs, g')"
       "length fs = length ks"
       "\<forall>k < length ks. fs ! k = [] \<or> fs ! k \<in> set (categories ! (ks ! k))" by blast
  have all: "\<forall>k < length (i # ks). (f # fs) ! k = [] \<or> (f # fs) ! k \<in> set (categories ! ((i # ks) ! k))"
  proof (intro allI impI)
    fix k assume "k < length (i # ks)"
    then show "(f # fs) ! k = [] \<or> (f # fs) ! k \<in> set (categories ! ((i # ks) ! k))"
      using fok h(3) by (cases k) auto
  qed
  show ?case using step h(1,2) all
    by (intro exI [of _ "f # fs"] exI [of _ g']) simp
qed

lemma pool_label_eq:
  "map (\<lambda>j. ''Cat'' @ str_int (int i) @ ''_'' @ str_int j) (py_range n)
     = map (\<lambda>j. ''Cat'' @ str_nat i @ ''_'' @ str_nat j) [0..<nat n]"
  by (simp add: py_range_def str_int_int comp_def)

lemma pool_distinct: "distinct (map (\<lambda>j. ''Cat'' @ str_nat i @ ''_'' @ str_nat j) [0..<n])"
proof -
  have "inj_on (\<lambda>j. ''Cat'' @ str_nat i @ ''_'' @ str_nat j) (set [0..<n])"
    by (rule inj_onI) (simp add: str_nat_inj)
  then show ?thesis by (simp add: distinct_map)
qed

lemma pool_ok_made:
  assumes "5 \<le> n" "n \<le> 50"
  shows "pool_ok i (map (\<lambda>j. ''Cat'' @ str_int (int i) @ ''_'' @ str_int j) (py_range n))"
proof -
  have "5 \<le> nat n" "nat n \<le> 50" using assms by simp_all
  then show ?thesis
    unfolding pool_label_eq pool_ok_def using pool_distinct [of i "nat n"] by simp
qed

lemma make_categories_ok:
  "\<exists>pools g'. make_categories (map int ks) g = Inr (pools, g')
       \<and> length pools = length ks
       \<and> (\<forall>k < length ks. pool_ok (ks ! k) (pools ! k))"
proof (induction ks arbitrary: g)
  case Nil
  show ?case by simp
next
  case (Cons i ks)
  from randint_ok [of 5 50 g] obtain n g1 where
    n: "randint 5 50 g = Inr (n, g1)" "5 \<le> n" "n \<le> 50" by auto
  from Cons.IH [of g1] obtain pools g2 where
    h: "make_categories (map int ks) g1 = Inr (pools, g2)" "length pools = length ks"
       "\<forall>k < length ks. pool_ok (ks ! k) (pools ! k)" by blast
  define pool where
    "pool = map (\<lambda>j. ''Cat'' @ str_int (int i) @ ''_'' @ str_int j) (py_range n)"
  have pk: "pool_ok i pool" unfolding pool_def using n(2,3) by (rule pool_ok_made)
  have step: "make_categories (map int (i # ks)) g = Inr (pool # pools, g2)"
    using n(1) h(1) by (simp add: pool_def)
  have all: "\<forall>k < length (i # ks). pool_ok ((i # ks) ! k) ((pool # pools) ! k)"
  proof (intro allI impI)
    fix k assume "k < length (i # ks)"
    then show "pool_ok ((i # ks) ! k) ((pool # pools) ! k)"
      using pk h(3) by (cases k) auto
  qed
  show ?case using step h(2) all
    by (intro exI [of _ "pool # pools"] exI [of _ g2]) simp
qed

lemma make_categories_cats_ok:
  "\<exists>categories g'. make_categories (py_range (categorical_cols num_cols)) g = Inr (categories, g')
       \<and> cats_ok num_cols categories"
proof -
  from make_categories_ok [of "[0..<nat (categorical_cols num_cols)]" g]
  obtain pools g' where
    h: "make_categories (map int [0..<nat (categorical_cols num_cols)]) g = Inr (pools, g')"
       "length pools = length [0..<nat (categorical_cols num_cols)]"
       "\<forall>k < length [0..<nat (categorical_cols num_cols)].
           pool_ok ([0..<nat (categorical_cols num_cols)] ! k) (pools ! k)" by blast
  have "cats_ok num_cols pools" using h(2,3) by (simp add: cats_ok_def)
  then show ?thesis using h(1) by (auto simp: py_range_def)
qed

lemma pool_ok_nonempty: "pool_ok i pool \<Longrightarrow> pool \<noteq> []"
  by (auto simp: pool_ok_def)

lemma gen_row_ok:
  assumes "cats_ok num_cols categories"
  shows "\<exists>row g'. gen_row num_cols categories g = Inr (row, g') \<and> row_ok num_cols categories row"
proof -
  let ?n = "nat (numeric_cols num_cols)"
  let ?c = "nat (categorical_cols num_cols)"
  let ?t = "nat (text_cols num_cols)"
  from numeric_loop_ok [of "py_range (numeric_cols num_cols)" "[]" g]
  obtain ns g1 where
    ns: "numeric_loop (py_range (numeric_cols num_cols)) [] g = (ns, g1)"
        "length ns = ?n" "list_all numeric_ok ns"
    by (auto simp: length_py_range)
  have pre: "\<forall>k < length [0..<?c]. [0..<?c] ! k < length categories
               \<and> categories ! ([0..<?c] ! k) \<noteq> []"
    using assms by (auto simp: cats_ok_def pool_ok_nonempty)
  from categorical_loop_ok [OF pre, of ns g1]
  obtain cs g2 where
    cs: "categorical_loop (py_range (categorical_cols num_cols)) categories ns g1 = Inr (ns @ cs, g2)"
        "length cs = ?c"
        "\<forall>k < ?c. cs ! k = [] \<or> cs ! k \<in> set (categories ! k)"
    by (auto simp: py_range_def)
  from text_loop_ok [of "py_range (text_cols num_cols)" "ns @ cs" g2]
  obtain ts g3 where
    ts: "text_loop (py_range (text_cols num_cols)) (ns @ cs) g2 = Inr ((ns @ cs) @ ts, g3)"
        "length ts = ?t" "list_all text_ok ts"
    by (auto simp: length_py_range)
  have run: "gen_row num_cols categories g = Inr (ns @ cs @ ts, g3)"
    using ns(1) cs(1) ts(1) by (simp add: gen_row_def)
  have "row_ok num_cols categories (ns @ cs @ ts)"
    using ns(2,3) cs(2,3) ts(2,3) by (simp add: row_ok_def Let_def nth_append)
  with run show ?thesis by blast
qed

subsection \<open>The row loop and the whole run\<close>

lemma writerow_files:
  "files w path = Some c \<Longrightarrow> files (writerow path row w) path = Some (c @ writerow_str row)"
  by (simp add: writerow_def)

lemma writerow_other: "p \<noteq> path \<Longrightarrow> files (writerow path row w) p = files w p"
  by (simp add: writerow_def)

lemma writerow_fields:
  "writable (writerow path row w) = writable w"
  "clock (writerow path row w) = clock w"
  "rand (writerow path row w) = rand w"
  by (simp_all add: writerow_def)

lemma rows_loop_step:
  assumes "gen_row num_cols categories (rand w) = Inr (row, g)"
  shows "rows_loop (i # r) path rows num_cols categories st w =
          (if (i + 1) mod 100000 = 0
           then (case progress i rows (clock w 0 - st) of
                   Inl e \<Rightarrow>
                     (Inl e, (writerow path row (w\<lparr>rand := g\<rparr>))\<lparr>clock := \<lambda>n. clock w (Suc n)\<rparr>)
                 | Inr u \<Rightarrow>
                     rows_loop r path rows num_cols categories st
                       ((writerow path row (w\<lparr>rand := g\<rparr>))\<lparr>clock := \<lambda>n. clock w (Suc n)\<rparr>))
           else rows_loop r path rows num_cols categories st (writerow path row (w\<lparr>rand := g\<rparr>)))"
  using assms by (simp add: Let_def now_def writerow_fields)

lemma progress_error:
  "progress i rows e = Inl x \<Longrightarrow> x = ZeroDivisionError \<or> x = OverflowError"
  by (auto simp: progress_def int_div_float_def split: if_splits)

lemma rows_loop_file:
  assumes "cats_ok num_cols categories" "files w path = Some c0"
  shows "\<exists>data. files (snd (rows_loop r path rows num_cols categories st w)) path
                   = Some (c0 @ concat (map writerow_str data))
            \<and> list_all (row_ok num_cols categories) data
            \<and> length data \<le> length r
            \<and> (fst (rows_loop r path rows num_cols categories st w) = Inr ()
                 \<longrightarrow> length data = length r)"
  using assms(2)
proof (induction r arbitrary: w c0)
  case Nil
  show ?case using Nil by (intro exI [of _ "[]"]) simp
next
  case (Cons i r)
  from gen_row_ok [OF assms(1), of "rand w"] obtain row g where
    row: "gen_row num_cols categories (rand w) = Inr (row, g)" "row_ok num_cols categories row"
    by blast
  define w1 where "w1 = writerow path row (w\<lparr>rand := g\<rparr>)"
  define w2 where "w2 = w1\<lparr>clock := \<lambda>n. clock w (Suc n)\<rparr>"
  have f1: "files w1 path = Some (c0 @ writerow_str row)"
    unfolding w1_def using Cons.prems by (intro writerow_files) simp
  have f2: "files w2 path = Some (c0 @ writerow_str row)" using f1 by (simp add: w2_def)
  note step = rows_loop_step [OF row(1), of i r path rows st, folded w1_def, folded w2_def]
  have "(\<exists>e. progress i rows (clock w 0 - st) = Inl e) \<or> progress i rows (clock w 0 - st) = Inr ()"
    by (cases "progress i rows (clock w 0 - st)") auto
  then consider (stop) e where "(i + 1) mod 100000 = 0" "progress i rows (clock w 0 - st) = Inl e"
    | (tick) "(i + 1) mod 100000 = 0" "progress i rows (clock w 0 - st) = Inr ()"
    | (plain) "(i + 1) mod 100000 \<noteq> 0"
    by (cases "(i + 1) mod 100000 = 0") auto
  then show ?case
  proof cases
    case stop
    then have "rows_loop (i # r) path rows num_cols categories st w = (Inl e, w2)"
      using step by simp
    then show ?thesis using f2 row(2)
      by (intro exI [of _ "[row]"]) simp
  next
    case tick
    then have eq: "rows_loop (i # r) path rows num_cols categories st w
                    = rows_loop r path rows num_cols categories st w2"
      using step by simp
    from Cons.IH [OF f2] obtain data where
      h: "files (snd (rows_loop r path rows num_cols categories st w2)) path
            = Some ((c0 @ writerow_str row) @ concat (map writerow_str data))"
         "list_all (row_ok num_cols categories) data" "length data \<le> length r"
         "fst (rows_loop r path rows num_cols categories st w2) = Inr () \<longrightarrow> length data = length r"
      by blast
    show ?thesis using h row(2) unfolding eq
      by (intro exI [of _ "row # data"]) simp
  next
    case plain
    then have eq: "rows_loop (i # r) path rows num_cols categories st w
                    = rows_loop r path rows num_cols categories st w1"
      using step by simp
    from Cons.IH [OF f1] obtain data where
      h: "files (snd (rows_loop r path rows num_cols categories st w1)) path
            = Some ((c0 @ writerow_str row) @ concat (map writerow_str data))"
         "list_all (row_ok num_cols categories) data" "length data \<le> length r"
         "fst (rows_loop r path rows num_cols categories st w1) = Inr () \<longrightarrow> length data = length r"
      by blast
    show ?thesis using h row(2) unfolding eq
      by (intro exI [of _ "row # data"]) simp
  qed
qed

lemma rows_loop_frame:
  assumes "cats_ok num_cols categories"
  shows "writable (snd (rows_loop r path rows num_cols categories st w)) = writable w
       \<and> (\<forall>p. p \<noteq> path \<longrightarrow> files (snd (rows_loop r path rows num_cols categories st w)) p = files w p)
       \<and> (fst (rows_loop r path rows num_cols categories st w) = Inr ()
           \<or> fst (rows_loop r path rows num_cols categories st w) = Inl ZeroDivisionError
           \<or> fst (rows_loop r path rows num_cols categories st w) = Inl OverflowError)"
proof (induction r arbitrary: w)
  case Nil
  show ?case by simp
next
  case (Cons i r)
  from gen_row_ok [OF assms(1), of "rand w"] obtain row g where
    row: "gen_row num_cols categories (rand w) = Inr (row, g)" by blast
  define w1 where "w1 = writerow path row (w\<lparr>rand := g\<rparr>)"
  define w2 where "w2 = w1\<lparr>clock := \<lambda>n. clock w (Suc n)\<rparr>"
  have a1: "writable w1 = writable w" "\<forall>p. p \<noteq> path \<longrightarrow> files w1 p = files w p"
    by (simp_all add: w1_def writerow_fields writerow_other)
  have a2: "writable w2 = writable w" "\<forall>p. p \<noteq> path \<longrightarrow> files w2 p = files w p"
    using a1 by (simp_all add: w2_def)
  note step = rows_loop_step [OF row(1), of i r path rows st, folded w1_def, folded w2_def]
  show ?case
    unfolding step using Cons.IH [of w1] Cons.IH [of w2] a1 a2 progress_error [of i rows "clock w 0 - st"]
    by (auto split: sum.splits)
qed

text \<open>
  The loop completes when the clock never shows the start time again and the counts fit
  a float.
\<close>

lemma rows_loop_completes:
  assumes "cats_ok num_cols categories" "\<forall>n. clock w n \<noteq> st"
    and "\<forall>i \<in> set r. \<not> float_overflow (i + 1) \<and> \<not> float_overflow (rows - i - 1)"
  shows "fst (rows_loop r path rows num_cols categories st w) = Inr ()
       \<and> (\<exists>k. clock (snd (rows_loop r path rows num_cols categories st w)) = (\<lambda>n. clock w (n + k)))"
  using assms(2,3)
proof (induction r arbitrary: w)
  case Nil
  show ?case by (simp add: exI [of _ 0])
next
  case (Cons i r)
  from gen_row_ok [OF assms(1), of "rand w"] obtain row g where
    row: "gen_row num_cols categories (rand w) = Inr (row, g)" by blast
  define w1 where "w1 = writerow path row (w\<lparr>rand := g\<rparr>)"
  define w2 where "w2 = w1\<lparr>clock := \<lambda>n. clock w (Suc n)\<rparr>"
  have c1: "clock w1 = clock w" by (simp add: w1_def writerow_fields)
  have c2: "clock w2 = (\<lambda>n. clock w (Suc n))" by (simp add: w2_def)
  note step = rows_loop_step [OF row(1), of i r path rows st, folded w1_def, folded w2_def]
  have p1: "\<forall>n. clock w1 n \<noteq> st" using Cons.prems(1) c1 by simp
  have p2: "\<forall>n. clock w2 n \<noteq> st" using Cons.prems(1) c2 by simp
  have fl: "\<forall>i \<in> set r. \<not> float_overflow (i + 1) \<and> \<not> float_overflow (rows - i - 1)"
    using Cons.prems(2) by simp
  from Cons.IH [OF p1 fl] obtain k1 where
    h1: "fst (rows_loop r path rows num_cols categories st w1) = Inr ()"
        "clock (snd (rows_loop r path rows num_cols categories st w1)) = (\<lambda>n. clock w (n + k1))"
    using c1 by auto
  from Cons.IH [OF p2 fl] obtain k2 where
    h2: "fst (rows_loop r path rows num_cols categories st w2) = Inr ()"
        "clock (snd (rows_loop r path rows num_cols categories st w2)) = (\<lambda>n. clock w (n + Suc k2))"
    using c2 by auto
  have w0: "clock w 0 \<noteq> st" using Cons.prems(1) by simp
  have pr: "progress i rows (clock w 0 - st) = Inr ()"
    using w0 Cons.prems(2) by (simp add: progress_def int_div_float_def)
  show ?case
  proof (cases "(i + 1) mod 100000 = 0")
    case True
    have "\<exists>k. clock (snd (rows_loop r path rows num_cols categories st w2)) = (\<lambda>n. clock w (n + k))"
      using h2(2) by (intro exI [of _ "Suc k2"])
    then show ?thesis unfolding step using True pr h2(1) by simp
  next
    case False
    have "\<exists>k. clock (snd (rows_loop r path rows num_cols categories st w1)) = (\<lambda>n. clock w (n + k))"
      using h1(2) by (intro exI [of _ k1])
    then show ?thesis unfolding step using False h1(1) by simp
  qed
qed

lemma start_world_fields:
  "files (start_world path num_cols g w) path = Some (writerow_str (headers num_cols))"
  "clock (start_world path num_cols g w) = (\<lambda>n. clock w (Suc n))"
  "writable (start_world path num_cols g w) = writable w"
  "p \<noteq> path \<Longrightarrow> files (start_world path num_cols g w) p = files w p"
  by (simp_all add: start_world_def writerow_def)

lemma run_unwritable:
  assumes "\<not> writable w path"
  shows "fst (generate_test_csv path rows num_cols w) = Inl OSError
       \<and> files (snd (generate_test_csv path rows num_cols w)) = files w"
proof -
  from make_categories_cats_ok [of num_cols "rand w"] obtain categories g where
    "make_categories (py_range (categorical_cols num_cols)) (rand w) = Inr (categories, g)"
    by blast
  then show ?thesis using assms
    by (simp add: generate_test_csv_def now_def open_w_def)
qed

lemma run_eq:
  assumes mk: "make_categories (py_range (categorical_cols num_cols)) (rand w) = Inr (categories, g)"
    and wr: "writable w path"
    and loop: "rows_loop (py_range rows) path rows num_cols categories (clock w 0)
                 (start_world path num_cols g w) = (out, w4)"
    and fil: "files w4 path = Some c"
  shows "generate_test_csv path rows num_cols w =
           (case out of
              Inl e \<Rightarrow> (Inl e, w4)
            | Inr u \<Rightarrow> (int_div_float rows (clock w4 0 - clock w 0),
                        w4\<lparr>clock := \<lambda>n. clock w4 (Suc n)\<rparr>))"
  using mk wr loop [unfolded start_world_def] fil
  by (simp add: generate_test_csv_def now_def open_w_def getsize_def split: sum.splits)

lemma run_file:
  assumes mk: "make_categories (py_range (categorical_cols num_cols)) (rand w) = Inr (categories, g)"
    and wr: "writable w path"
  shows "\<exists>data. files (snd (generate_test_csv path rows num_cols w)) path
                   = Some (concat (map writerow_str (headers num_cols # data)))
            \<and> list_all (row_ok num_cols categories) data
            \<and> length data \<le> nat rows
            \<and> (fst (generate_test_csv path rows num_cols w) = Inr () \<longrightarrow> length data = nat rows)"
proof -
  from make_categories_cats_ok [of num_cols "rand w"] mk
  have ok: "cats_ok num_cols categories" by auto
  let ?w3 = "start_world path num_cols g w"
  obtain out w4 where
    loop: "rows_loop (py_range rows) path rows num_cols categories (clock w 0) ?w3 = (out, w4)"
    by (cases "rows_loop (py_range rows) path rows num_cols categories (clock w 0) ?w3")
  from rows_loop_file [OF ok start_world_fields(1) [of path num_cols g w],
    where r = "py_range rows" and rows = rows and st = "clock w 0"]
  obtain data where
    d: "files w4 path = Some (writerow_str (headers num_cols) @ concat (map writerow_str data))"
       "list_all (row_ok num_cols categories) data" "length data \<le> nat rows"
       "out = Inr () \<longrightarrow> length data = nat rows"
    unfolding loop by (auto simp: length_py_range)
  note eq = run_eq [OF mk wr loop d(1)]
  have "files (snd (generate_test_csv path rows num_cols w)) path
          = Some (concat (map writerow_str (headers num_cols # data)))"
    unfolding eq using d(1) by (simp split: sum.splits)
  moreover have "fst (generate_test_csv path rows num_cols w) = Inr () \<longrightarrow> out = Inr ()"
    unfolding eq by (simp split: sum.splits)
  ultimately show ?thesis using d(2,3,4) by blast
qed

lemma int_div_float_cases:
  "int_div_float n e = Inr () \<or> int_div_float n e = Inl ZeroDivisionError
   \<or> int_div_float n e = Inl OverflowError"
  by (simp add: int_div_float_def)

lemma run_frame:
  "writable (snd (generate_test_csv path rows num_cols w)) = writable w
   \<and> (\<forall>p. p \<noteq> path \<longrightarrow> files (snd (generate_test_csv path rows num_cols w)) p = files w p)
   \<and> fst (generate_test_csv path rows num_cols w)
        \<in> {Inr (), Inl OSError, Inl ZeroDivisionError, Inl OverflowError}"
proof (cases "writable w path")
  case False
  from make_categories_cats_ok [of num_cols "rand w"] obtain categories g where
    "make_categories (py_range (categorical_cols num_cols)) (rand w) = Inr (categories, g)"
    by blast
  then show ?thesis using False
    by (simp add: generate_test_csv_def now_def open_w_def)
next
  case True
  from make_categories_cats_ok [of num_cols "rand w"] obtain categories g where
    mk: "make_categories (py_range (categorical_cols num_cols)) (rand w) = Inr (categories, g)"
    and ok: "cats_ok num_cols categories" by blast
  let ?w3 = "start_world path num_cols g w"
  obtain out w4 where
    loop: "rows_loop (py_range rows) path rows num_cols categories (clock w 0) ?w3 = (out, w4)"
    by (cases "rows_loop (py_range rows) path rows num_cols categories (clock w 0) ?w3")
  from rows_loop_file [OF ok start_world_fields(1) [of path num_cols g w],
    where r = "py_range rows" and rows = rows and st = "clock w 0"]
  obtain c where c: "files w4 path = Some c" unfolding loop by auto
  from rows_loop_frame [OF ok, where r = "py_range rows" and path = path and rows = rows
      and st = "clock w 0" and w = ?w3]
  have fr: "writable w4 = writable w" "\<forall>p. p \<noteq> path \<longrightarrow> files w4 p = files w p"
    "out = Inr () \<or> out = Inl ZeroDivisionError \<or> out = Inl OverflowError"
    unfolding loop by (simp_all add: start_world_fields)
  show ?thesis unfolding run_eq [OF mk True loop c]
    using fr int_div_float_cases [of rows "clock w4 0 - clock w 0"]
    by (auto split: sum.splits)
qed

lemma run_normal_writable:
  assumes "fst (generate_test_csv path rows num_cols w) = Inr ()"
  shows "writable w path"
  using assms run_unwritable [of w path rows num_cols] by auto

lemma range_fits_float:
  assumes "\<not> float_overflow rows"
  shows "\<forall>i \<in> set (py_range rows). \<not> float_overflow (i + 1) \<and> \<not> float_overflow (rows - i - 1)"
proof
  fix i assume "i \<in> set (py_range rows)"
  then have "0 \<le> i" "i < rows" by (auto simp: py_range_def)
  then have "\<bar>i + 1\<bar> \<le> \<bar>rows\<bar>" "\<bar>rows - i - 1\<bar> \<le> \<bar>rows\<bar>" by simp_all
  then show "\<not> float_overflow (i + 1) \<and> \<not> float_overflow (rows - i - 1)"
    using assms unfolding float_overflow_def by linarith
qed

lemma run_completes:
  assumes wr: "writable w path" and tick: "\<forall>n. clock w (Suc n) \<noteq> clock w 0"
    and fits: "\<not> float_overflow rows"
  shows "fst (generate_test_csv path rows num_cols w) = Inr ()"
proof -
  from make_categories_cats_ok [of num_cols "rand w"] obtain categories g where
    mk: "make_categories (py_range (categorical_cols num_cols)) (rand w) = Inr (categories, g)"
    and ok: "cats_ok num_cols categories" by blast
  let ?w3 = "start_world path num_cols g w"
  obtain out w4 where
    loop: "rows_loop (py_range rows) path rows num_cols categories (clock w 0) ?w3 = (out, w4)"
    by (cases "rows_loop (py_range rows) path rows num_cols categories (clock w 0) ?w3")
  from rows_loop_file [OF ok start_world_fields(1) [of path num_cols g w],
    where r = "py_range rows" and rows = rows and st = "clock w 0"]
  obtain c where c: "files w4 path = Some c" unfolding loop by auto
  have t3: "\<forall>n. clock ?w3 n \<noteq> clock w 0" using tick by (simp add: start_world_fields)
  from rows_loop_completes [OF ok t3 range_fits_float [OF fits], where path = path]
  obtain k where
    "out = Inr ()" "clock w4 = (\<lambda>n. clock ?w3 (n + k))" unfolding loop by auto
  then have "out = Inr ()" "clock w4 0 \<noteq> clock w 0"
    using tick by (simp_all add: start_world_fields)
  then show ?thesis unfolding run_eq [OF mk wr loop c] using fits
    by (simp add: int_div_float_def)
qed

subsection \<open>Plain fields, and reading the file back\<close>

lemma plain_iff: "plain f \<longleftrightarrow> comma \<notin> set f \<and> dquote \<notin> set f \<and> CR \<notin> set f \<and> LF \<notin> set f"
  by (auto simp: plain_def special_chars_def list_all_iff)

lemma plain_render: "plain f \<Longrightarrow> render_field f = f"
  by (simp add: render_field_def needs_quote_def plain_def list_all_iff list_ex_iff)

lemma plain_map_render: "list_all plain row \<Longrightarrow> map render_field row = row"
  by (induction row) (simp_all add: plain_render)

lemma writerow_str_plain:
  "list_all plain row \<Longrightarrow> row \<noteq> [[]] \<Longrightarrow> writerow_str row = join_fields row @ [CR, LF]"
  by (simp add: writerow_str_def plain_map_render)

lemma split_at_append: "d \<notin> set f \<Longrightarrow> split_at d cur (f @ s) = split_at d (cur @ f) s"
  by (induction f arbitrary: cur) auto

lemma split_at_join:
  "row \<noteq> [] \<Longrightarrow> list_all plain row \<Longrightarrow> split_at comma cur (join_fields row) = (cur @ hd row) # tl row"
proof (induction row arbitrary: cur rule: join_fields.induct)
  case 1
  then show ?case by simp
next
  case (2 f)
  then have "comma \<notin> set f" by (simp add: plain_iff)
  from split_at_append [OF this, of cur "[]"] show ?case by simp
next
  case (3 f f' fs)
  then have c: "comma \<notin> set f" by (simp add: plain_iff)
  have "split_at comma cur (join_fields (f # f' # fs))
          = split_at comma (cur @ f) (comma # join_fields (f' # fs))"
    using split_at_append [OF c] by simp
  also have "\<dots> = (cur @ f) # split_at comma [] (join_fields (f' # fs))" by simp
  also have "\<dots> = (cur @ f) # f' # fs" using 3 by simp
  finally show ?case by simp
qed

lemma fields_join: "row \<noteq> [] \<Longrightarrow> list_all plain row \<Longrightarrow> split_at comma [] (join_fields row) = row"
  using split_at_join [of row "[]"] by simp

lemma split_crlf_line:
  "CR \<notin> set l \<Longrightarrow> split_crlf cur (l @ CR # LF # s) = (cur @ l) # split_crlf [] s"
proof (induction l arbitrary: cur)
  case Nil
  show ?case by simp
next
  case (Cons c l)
  obtain d cs where e: "l @ CR # LF # s = d # cs" by (cases "l @ CR # LF # s") auto
  have "c \<noteq> CR" using Cons.prems by auto
  then have "split_crlf cur ((c # l) @ CR # LF # s) = split_crlf (cur @ [c]) (l @ CR # LF # s)"
    unfolding append_Cons e by simp
  also have "\<dots> = ((cur @ [c]) @ l) # split_crlf [] s" using Cons by simp
  finally show ?case by simp
qed

lemma plain_join: "list_all plain row \<Longrightarrow> CR \<notin> set (join_fields row) \<and> LF \<notin> set (join_fields row) \<and> dquote \<notin> set (join_fields row)"
  by (induction row rule: join_fields.induct)
     (auto simp: plain_iff comma_def CR_def LF_def dquote_def)

lemma count_join:
  "list_all plain row \<Longrightarrow> count_list (join_fields row) comma = length row - 1"
proof (induction row rule: join_fields.induct)
  case 1
  show ?case by simp
next
  case (2 f)
  then show ?case by (simp add: plain_iff count_list_0_iff)
next
  case (3 f f' fs)
  then have "count_list f comma = 0" by (simp add: plain_iff count_list_0_iff)
  with 3 show ?case by simp
qed

lemma split_crlf_rows:
  assumes "\<forall>row \<in> set rs. list_all plain row \<and> row \<noteq> [[]]"
  shows "split_crlf [] (concat (map writerow_str rs)) = map join_fields rs"
  using assms
proof (induction rs)
  case Nil
  show ?case by simp
next
  case (Cons row rs)
  then have p: "list_all plain row" "row \<noteq> [[]]" by simp_all
  have cr: "CR \<notin> set (join_fields row)" using plain_join [OF p(1)] by simp
  have "split_crlf [] (concat (map writerow_str (row # rs)))
          = split_crlf [] (join_fields row @ CR # LF # concat (map writerow_str rs))"
    by (simp add: writerow_str_plain [OF p])
  also have "\<dots> = join_fields row # split_crlf [] (concat (map writerow_str rs))"
    using split_crlf_line [OF cr, of "[]"] by simp
  finally show ?case using Cons by simp
qed

lemma read_csv_rows:
  assumes "\<forall>row \<in> set rs. list_all plain row \<and> row \<noteq> [[]] \<and> row \<noteq> []"
  shows "read_csv (concat (map writerow_str rs)) = rs"
proof -
  have "split_crlf [] (concat (map writerow_str rs)) = map join_fields rs"
    using assms by (intro split_crlf_rows) simp
  moreover have "map (split_at comma []) (map join_fields rs) = rs"
    using assms by (induction rs) (simp_all add: fields_join)
  ultimately show ?thesis by (simp add: read_csv_def)
qed

lemma count_LF_row: "list_all plain row \<Longrightarrow> count_list (writerow_str row) LF = 1"
proof (cases "row = [[]]")
  case True
  then show ?thesis by (simp add: writerow_str_def CR_def LF_def dquote_def)
next
  case False
  assume p: "list_all plain row"
  have "count_list (join_fields row) LF = 0" using plain_join [OF p] by (simp add: count_list_0_iff)
  then show ?thesis by (simp add: writerow_str_plain [OF p False] CR_def LF_def)
qed

lemma count_list_append: "count_list (xs @ ys) a = count_list xs a + count_list ys a"
  by (induction xs) simp_all

lemma count_LF_rows:
  "\<forall>row \<in> set rs. list_all plain row \<Longrightarrow> count_list (concat (map writerow_str rs)) LF = length rs"
  by (induction rs) (simp_all add: count_list_append count_LF_row)

lemma plain_append: "plain (a @ b) \<longleftrightarrow> plain a \<and> plain b"
  by (simp add: plain_def)

lemma plain_str_nat: "plain (str_nat n)"
  using str_nat_digits [of n] by (auto simp: plain_def list_all_iff is_digit_plain)

lemma plain_names:
  "plain (''numeric_'' @ str_nat i)" "plain (''category_'' @ str_nat i)"
  "plain (''text_'' @ str_nat i)" "plain (''Cat'' @ str_nat i @ ''_'' @ str_nat j)"
proof -
  have "plain ''numeric_''" "plain ''category_''" "plain ''text_''" "plain ''Cat''" "plain ''_''"
    by (simp_all add: plain_def special_chars_def comma_def dquote_def CR_def LF_def)
  then show "plain (''numeric_'' @ str_nat i)" "plain (''category_'' @ str_nat i)"
    "plain (''text_'' @ str_nat i)" "plain (''Cat'' @ str_nat i @ ''_'' @ str_nat j)"
    by (simp_all only: plain_append plain_str_nat simp_thms)
qed

lemma headers_eq:
  "headers c = map (\<lambda>i. ''numeric_'' @ str_nat i) [0..<nat (numeric_cols c)]
             @ map (\<lambda>i. ''category_'' @ str_nat i) [0..<nat (categorical_cols c)]
             @ map (\<lambda>i. ''text_'' @ str_nat i) [0..<nat (text_cols c)]"
  by (simp add: headers_def py_range_def str_int_int comp_def)

lemma length_headers:
  "length (headers c) = nat (numeric_cols c) + nat (categorical_cols c) + nat (text_cols c)"
  by (simp add: headers_eq)

lemma cols_sum:
  "0 \<le> c \<Longrightarrow> nat (numeric_cols c) + nat (categorical_cols c) + nat (text_cols c) = nat c"
  by (simp add: numeric_cols_def categorical_cols_def text_cols_def)

lemma plain_headers: "list_all plain (headers c)"
  using plain_names(1-3) by (auto simp only: headers_eq set_append set_map list_all_iff)

lemma plain_pool: "pool_ok i pool \<Longrightarrow> list_all plain pool"
proof -
  assume "pool_ok i pool"
  then have "pool = map (\<lambda>j. ''Cat'' @ str_nat i @ ''_'' @ str_nat j) [0..<length pool]"
    by (simp add: pool_ok_def)
  then have "set pool \<subseteq> {l. plain l}"
    using plain_names(4) [of i] by (metis (mono_tags, lifting) imageE list.set_map mem_Collect_eq subsetI)
  then show ?thesis by (auto simp: list_all_iff)
qed

lemma plain_decimal: "decimal_2f s \<Longrightarrow> plain s"
proof -
  assume d: "decimal_2f s"
  then obtain d2 d1 p rest where r: "rev s = d2 # d1 # p # rest"
    by (auto simp: decimal_2f_def split: list.splits)
  then have s: "s = rev rest @ [p, d1, d2]" by (metis rev_rev_ident rev.simps append.assoc append_Cons append_Nil)
  from d r have t: "is_digit d2" "is_digit d1" "p = CHR ''.''"
    and ip: "list_all is_digit (case rev rest of c # cs \<Rightarrow> if c = CHR ''-'' then cs else rev rest | [] \<Rightarrow> rev rest)"
    by (simp_all add: decimal_2f_def Let_def)
  have m: "CHR ''-'' \<notin> set special_chars" "CHR ''.'' \<notin> set special_chars"
    by (simp_all add: special_chars_def comma_def dquote_def CR_def LF_def)
  have "plain (rev rest)"
    using ip m by (cases "rev rest") (auto simp: plain_def list_all_iff is_digit_plain split: if_splits)
  moreover have "plain [p, d1, d2]" using t m by (simp add: plain_def is_digit_plain)
  ultimately show ?thesis by (subst s) (simp only: plain_append)
qed

lemma plain_numeric: "numeric_ok f \<Longrightarrow> plain f"
  by (auto simp: numeric_ok_def plain_decimal) (simp add: plain_def)

lemma alphabet_plain: "c \<in> set alphabet \<Longrightarrow> c \<notin> set special_chars"
  by (auto simp: alphabet_def ascii_letters_def ascii_lowercase_def ascii_uppercase_def digits_def
      special_chars_def comma_def dquote_def CR_def LF_def)

lemma plain_text: "text_ok f \<Longrightarrow> plain f"
  by (auto simp: text_ok_def plain_def list_all_iff alphabet_plain)

lemma plain_row:
  assumes "cats_ok num_cols categories" "row_ok num_cols categories row"
  shows "list_all plain row"
proof -
  let ?n = "nat (numeric_cols num_cols)"
  let ?c = "nat (categorical_cols num_cols)"
  let ?t = "nat (text_cols num_cols)"
  from assms(2) have len: "length row = ?n + ?c + ?t"
    and nu: "list_all numeric_ok (take ?n row)"
    and ca: "\<forall>i < ?c. row ! (?n + i) = [] \<or> row ! (?n + i) \<in> set (categories ! i)"
    and te: "list_all text_ok (drop (?n + ?c) row)"
    by (simp_all add: row_ok_def Let_def)
  have "plain (row ! k)" if k: "k < length row" for k
  proof -
    consider (a) "k < ?n" | (b) "?n \<le> k" "k < ?n + ?c" | (c) "?n + ?c \<le> k" by linarith
    then show ?thesis
    proof cases
      case a
      then have "take ?n row ! k = row ! k" by simp
      moreover have "k < length (take ?n row)" using a k by simp
      ultimately have "numeric_ok (row ! k)" using nu by (metis list_all_length)
      then show ?thesis by (rule plain_numeric)
    next
      case b
      define i where "i = k - ?n"
      have i: "i < ?c" "k = ?n + i" using b by (simp_all add: i_def)
      have "pool_ok i (categories ! i)" using assms(1) i(1) by (simp add: cats_ok_def)
      then have "list_all plain (categories ! i)" by (rule plain_pool)
      moreover have "row ! k = [] \<or> row ! k \<in> set (categories ! i)" using ca i by simp
      ultimately show ?thesis by (auto simp: list_all_iff) (simp add: plain_def)
    next
      case c
      define j where "j = k - (?n + ?c)"
      have j: "j < length (drop (?n + ?c) row)" "drop (?n + ?c) row ! j = row ! k"
        using c k by (simp_all add: j_def)
      then have "text_ok (row ! k)" using te by (metis list_all_length)
      then show ?thesis by (rule plain_text)
    qed
  qed
  then show ?thesis by (simp add: list_all_length)
qed


subsection \<open>The claims of the specification\<close>

text \<open>
  C2: the partition is \<open>numeric = column_count // 3\<close>, \<open>categorical = column_count // 3\<close>,
  \<open>text = column_count - numeric - categorical\<close>; the three counts add up to
  \<open>column_count\<close>, and the whole remainder of the division by 3 goes to the text group.
\<close>

theorem column_partition:
  "numeric_cols c = c div 3
   \<and> categorical_cols c = c div 3
   \<and> text_cols c = c - numeric_cols c - categorical_cols c
   \<and> numeric_cols c + categorical_cols c + text_cols c = c
   \<and> text_cols c = c div 3 + c mod 3
   \<and> 0 \<le> c mod 3 \<and> c mod 3 < 3"
  by (simp add: numeric_cols_def categorical_cols_def text_cols_def)

lemma run_rows:
  assumes "writable w path"
  shows "\<exists>categories g data.
           make_categories (py_range (categorical_cols num_cols)) (rand w) = Inr (categories, g)
         \<and> cats_ok num_cols categories
         \<and> files (snd (generate_test_csv path rows num_cols w)) path
              = Some (concat (map writerow_str (headers num_cols # data)))
         \<and> list_all (row_ok num_cols categories) data
         \<and> length data \<le> nat rows
         \<and> (fst (generate_test_csv path rows num_cols w) = Inr () \<longrightarrow> length data = nat rows)"
proof -
  from make_categories_cats_ok [of num_cols "rand w"] obtain categories g where
    mk: "make_categories (py_range (categorical_cols num_cols)) (rand w) = Inr (categories, g)"
    and ok: "cats_ok num_cols categories" by blast
  from run_file [OF mk assms, of rows] mk ok show ?thesis by blast
qed

lemma str_nat_small: "n < 10 \<Longrightarrow> str_nat n = [digit_char n]"
  by (subst str_nat.simps) simp

lemma headers_9:
  "headers 9 = [''numeric_0'', ''numeric_1'', ''numeric_2'', ''category_0'', ''category_1'',
                 ''category_2'', ''text_0'', ''text_1'', ''text_2'']"
  by (simp add: headers_eq numeric_cols_def categorical_cols_def text_cols_def upt_rec
      str_nat_small digit_char_def)

lemma headers_m1: "headers (- 1) = [''text_0'']"
  by (simp add: headers_eq numeric_cols_def categorical_cols_def text_cols_def upt_rec
      str_nat_small digit_char_def)

text \<open>
  C3: the header row is the numeric names, then the categorical names, then the text
  names, each group numbered from zero: \<open>numeric_i\<close> for \<open>i\<close> below the numeric
  count, \<open>category_i\<close> for \<open>i\<close> below the categorical count, \<open>text_i\<close> for
  \<open>i\<close> below the text count, where \<open>i\<close> is written in decimal.
\<close>

theorem header_names:
  "headers c = map (\<lambda>i. ''numeric_'' @ str_nat i) [0..<nat (numeric_cols c)]
             @ map (\<lambda>i. ''category_'' @ str_nat i) [0..<nat (categorical_cols c)]
             @ map (\<lambda>i. ''text_'' @ str_nat i) [0..<nat (text_cols c)]
   \<and> (\<forall>i < nat (numeric_cols c). headers c ! i = ''numeric_'' @ str_nat i)
   \<and> (\<forall>i < nat (categorical_cols c).
         headers c ! (nat (numeric_cols c) + i) = ''category_'' @ str_nat i)
   \<and> (\<forall>i < nat (text_cols c).
         headers c ! (nat (numeric_cols c) + nat (categorical_cols c) + i) = ''text_'' @ str_nat i)
   \<and> (\<forall>i. val_digits (str_nat i) = i)"
  by (simp add: headers_eq nth_append val_digits_str_nat)

theorem header_names_witness:
  "(1::nat) < nat (numeric_cols 9) \<and> headers 9 ! 1 = ''numeric_1''
   \<and> (2::nat) < nat (categorical_cols 9) \<and> headers 9 ! 5 = ''category_2''
   \<and> (0::nat) < nat (text_cols 9) \<and> headers 9 ! 6 = ''text_0''"
proof -
  have n: "nat (numeric_cols 9) = 3" "nat (categorical_cols 9) = 3" "nat (text_cols 9) = 3"
    by (simp_all add: numeric_cols_def categorical_cols_def text_cols_def)
  have s: "str_nat 0 = ''0''" "str_nat (Suc 0) = ''1''" "str_nat 2 = ''2''"
    by (simp_all add: str_nat_small digit_char_def)
  from header_names [of 9] have
    a: "\<forall>i < nat (numeric_cols 9). headers 9 ! i = ''numeric_'' @ str_nat i"
    and b: "\<forall>i < nat (categorical_cols 9).
         headers 9 ! (nat (numeric_cols 9) + i) = ''category_'' @ str_nat i"
    and c: "\<forall>i < nat (text_cols 9).
         headers 9 ! (nat (numeric_cols 9) + nat (categorical_cols 9) + i) = ''text_'' @ str_nat i"
    by blast+
  from a [rule_format, of 1] b [rule_format, of 2] c [rule_format, of 0]
  show ?thesis by (simp add: n s)
qed

lemma world_zero_fields:
  "writable world_zero p" "clock world_zero n = int n" "files world_zero p = None"
  "rand world_zero = rng_zero"
  by (simp_all add: world_zero_def)

text \<open>
  C8: when the first or the second command-line argument is not a parseable integer, the
  process fails with \<^verbatim>\<open>ValueError\<close>, its exit status is not zero, and the world is
  as it was: no file has been created or written. This holds whatever strings \<^verbatim>\<open>int\<close>
  accepts. When both arguments are parsed, the run is the call of
  \<^verbatim>\<open>generate_test_csv\<close>, and a run that completes normally has exit status 0.
\<close>

theorem parse_error_before_io:
  "((1 < length argv \<and> int_py (argv ! 1) = None)
      \<or> (2 < length argv \<and> int_py (argv ! 2) = None)
     \<longrightarrow> fst (main int_py argv w) = Inl ValueError
         \<and> exit_status (fst (main int_py argv w)) \<noteq> 0
         \<and> snd (main int_py argv w) = w
         \<and> files (snd (main int_py argv w)) = files w)
   \<and> (3 < length argv \<and> int_py (argv ! 1) = Some r \<and> int_py (argv ! 2) = Some c
     \<longrightarrow> main int_py argv w = generate_test_csv (argv ! 3) r c w)
   \<and> (fst (main int_py argv w) = Inr () \<longrightarrow> exit_status (fst (main int_py argv w)) = 0)"
proof -
  have a: "fst (main int_py argv w) = Inl ValueError \<and> snd (main int_py argv w) = w"
    if "1 < length argv" "int_py (argv ! 1) = None"
    using that by (simp add: main_def)
  have b: "fst (main int_py argv w) = Inl ValueError \<and> snd (main int_py argv w) = w"
    if "2 < length argv" "int_py (argv ! 2) = None"
  proof (cases "int_py (argv ! 1)")
    case None
    then show ?thesis using a that by simp
  next
    case (Some n)
    then show ?thesis using that by (simp add: main_def)
  qed
  have c: "main int_py argv w = generate_test_csv (argv ! 3) r c w"
    if "3 < length argv" "int_py (argv ! 1) = Some r" "int_py (argv ! 2) = Some c"
    using that by (simp add: main_def)
  show ?thesis using a b c by (auto simp: exit_status_def)
qed

lemma py_int_abc: "py_int ''abc'' = None"
  by (simp add: py_int_def to_ascii_def strip_def is_space_def digit_val_def
      int_max_str_digits_def)

lemma py_int_12: "py_int ''12'' = Some 12"
  by (simp add: py_int_def to_ascii_def strip_def is_space_def digit_val_def
      int_max_str_digits_def)

lemma py_int_0: "py_int ''0'' = Some 0"
  by (simp add: py_int_def to_ascii_def strip_def is_space_def digit_val_def
      int_max_str_digits_def)

lemma py_int_9: "py_int ''9'' = Some 9"
  by (simp add: py_int_def to_ascii_def strip_def is_space_def digit_val_def
      int_max_str_digits_def)

text \<open>
  Two strings on which the ASCII and the Unicode notion of white space differ: the
  information separator \<open>0x1C\<close> is not skipped, the no-break space \<open>0xA0\<close> is.
\<close>

lemma py_int_separator: "py_int [CHR 0x1C, CHR ''5''] = None"
  by (simp add: py_int_def to_ascii_def strip_def is_space_def digit_val_def
      int_max_str_digits_def)

lemma py_int_nbsp: "py_int [CHR 0xA0, CHR ''5''] = Some 5"
  by (simp add: py_int_def to_ascii_def strip_def is_space_def digit_val_def
      int_max_str_digits_def)

theorem parse_error_before_io_witness:
  "fst (main py_int [''generate_test_data.py'', ''12'', ''abc'', ''out.csv''] world_zero)
     = Inl ValueError
   \<and> exit_status (fst (main py_int [''generate_test_data.py'', ''12'', ''abc'', ''out.csv'']
                          world_zero)) \<noteq> 0
   \<and> files (snd (main py_int [''generate_test_data.py'', ''12'', ''abc'', ''out.csv'']
                     world_zero)) ''out.csv'' = None
   \<and> fst (main py_int [''generate_test_data.py'', [CHR 0x1C, CHR ''5''], ''9'', ''out.csv'']
             world_zero) = Inl ValueError
   \<and> main py_int [''generate_test_data.py'', ''0'', ''9'', ''out.csv''] world_zero
        = generate_test_csv ''out.csv'' 0 9 world_zero
   \<and> fst (main py_int [''generate_test_data.py'', ''0'', ''9'', ''out.csv''] world_zero) = Inr ()
   \<and> exit_status (fst (main py_int [''generate_test_data.py'', ''0'', ''9'', ''out.csv'']
                          world_zero)) = 0"
proof -
  let ?bad = "[''generate_test_data.py'', ''12'', ''abc'', ''out.csv'']"
  let ?sep = "[''generate_test_data.py'', [CHR 0x1C, CHR ''5''], ''9'', ''out.csv'']"
  let ?good = "[''generate_test_data.py'', ''0'', ''9'', ''out.csv'']"
  have h: "2 < length ?bad \<and> py_int (?bad ! 2) = None" by (simp add: py_int_abc)
  have s: "1 < length ?sep \<and> py_int (?sep ! 1) = None" by (simp add: py_int_separator)
  have k: "3 < length ?good \<and> py_int (?good ! 1) = Some 0 \<and> py_int (?good ! 2) = Some 9"
    by (simp add: py_int_0 py_int_9)
  from parse_error_before_io [of ?good py_int world_zero 0 9] k
  have m: "main py_int ?good world_zero = generate_test_csv ''out.csv'' 0 9 world_zero"
    by simp
  have "fst (generate_test_csv ''out.csv'' 0 9 world_zero) = Inr ()"
    by (rule run_completes) (simp_all add: world_zero_fields float_overflow_def)
  with m have g: "fst (main py_int ?good world_zero) = Inr ()" by simp
  from parse_error_before_io [of ?bad py_int world_zero 0 9] h
  have 1: "fst (main py_int ?bad world_zero) = Inl ValueError"
    "exit_status (fst (main py_int ?bad world_zero)) \<noteq> 0"
    "files (snd (main py_int ?bad world_zero)) = files world_zero" by blast+
  from parse_error_before_io [of ?sep py_int world_zero 0 9] s
  have 2: "fst (main py_int ?sep world_zero) = Inl ValueError" by blast
  from parse_error_before_io [of ?good py_int world_zero 0 9] g
  have 3: "exit_status (fst (main py_int ?good world_zero)) = 0" by blast
  show ?thesis using 1 2 3 m g by (simp add: world_zero_fields)
qed

lemma row_ok_length:
  "0 \<le> num_cols \<Longrightarrow> row_ok num_cols categories row \<Longrightarrow> length row = nat num_cols"
  using cols_sum [of num_cols] by (simp add: row_ok_def Let_def)

lemma run_shape:
  assumes "3 \<le> num_cols" "0 \<le> rows" "fst (generate_test_csv path rows num_cols w) = Inr ()"
  shows "\<exists>data. files (snd (generate_test_csv path rows num_cols w)) path
                  = Some (concat (map writerow_str (headers num_cols # data)))
          \<and> read_csv (concat (map writerow_str (headers num_cols # data))) = headers num_cols # data
          \<and> length (headers num_cols) = nat num_cols
          \<and> length data = nat rows
          \<and> (\<forall>row \<in> set data. length row = nat num_cols)
          \<and> count_list (concat (map writerow_str (headers num_cols # data))) LF = nat rows + 1"
proof -
  have wr: "writable w path" using assms(3) by (rule run_normal_writable)
  from run_rows [OF wr, of num_cols rows] assms(3) obtain categories g data where
    ok: "cats_ok num_cols categories"
    and fl: "files (snd (generate_test_csv path rows num_cols w)) path
              = Some (concat (map writerow_str (headers num_cols # data)))"
    and rows: "list_all (row_ok num_cols categories) data"
    and len: "length data = nat rows" by blast
  have nn: "0 \<le> num_cols" using assms(1) by simp
  have hl: "length (headers num_cols) = nat num_cols"
    using cols_sum [OF nn] by (simp add: length_headers)
  have rl: "\<forall>row \<in> set data. length row = nat num_cols"
    using rows row_ok_length [OF nn] by (auto simp: list_all_iff)
  have pl: "\<forall>row \<in> set (headers num_cols # data). list_all plain row"
    using rows plain_row [OF ok] plain_headers [of num_cols] by (auto simp: list_all_iff)
  have three: "\<forall>row \<in> set (headers num_cols # data). length row = nat num_cols"
    using hl rl by simp
  have ne: "\<forall>row \<in> set (headers num_cols # data). list_all plain row \<and> row \<noteq> [[]] \<and> row \<noteq> []"
  proof
    fix row assume r: "row \<in> set (headers num_cols # data)"
    then have "3 \<le> length row" using three assms(1) by auto
    then have "row \<noteq> [[]]" "row \<noteq> []" by auto
    then show "list_all plain row \<and> row \<noteq> [[]] \<and> row \<noteq> []" using pl r by blast
  qed
  have rd: "read_csv (concat (map writerow_str (headers num_cols # data))) = headers num_cols # data"
    using ne by (rule read_csv_rows)
  have lf: "count_list (concat (map writerow_str (headers num_cols # data))) LF = nat rows + 1"
    using count_LF_rows [OF pl] len by simp
  show ?thesis using fl rd hl len rl lf by blast
qed

lemma header_line_9:
  "writerow_str (headers 9) =
     ''numeric_0,numeric_1,numeric_2,category_0,category_1,category_2,text_0,text_1,text_2''
     @ [CR, LF]"
proof -
  have "list_all plain (headers 9)" by (rule plain_headers)
  moreover have "headers 9 \<noteq> [[]]" by (simp add: headers_9)
  ultimately have "writerow_str (headers 9) = join_fields (headers 9) @ [CR, LF]"
    by (rule writerow_str_plain)
  then show ?thesis by (simp add: headers_9 comma_def)
qed

text \<open>
  C1: a run with at least three columns and a non-negative row count that completes
  normally leaves a file that consists of the header record followed by exactly
  \<open>row_count\<close> data records, each of exactly \<open>column_count\<close> fields, on
  \<open>row_count + 1\<close> lines; reading the file back without any quote handling returns
  these records. In particular \<open>(1000, 9, "out.csv")\<close> gives the nine column names
  and 1001 lines, and \<open>(0, 9, "out.csv")\<close> gives the header line only.
\<close>

theorem csv_shape:
  "(3 \<le> num_cols \<and> 0 \<le> rows \<and> fst (generate_test_csv path rows num_cols w) = Inr ()
     \<longrightarrow> (\<exists>data. files (snd (generate_test_csv path rows num_cols w)) path
                      = Some (concat (map writerow_str (headers num_cols # data)))
              \<and> read_csv (concat (map writerow_str (headers num_cols # data)))
                      = headers num_cols # data
              \<and> length (headers num_cols) = nat num_cols
              \<and> length data = nat rows
              \<and> (\<forall>row \<in> set data. length row = nat num_cols)
              \<and> count_list (concat (map writerow_str (headers num_cols # data))) LF
                      = nat rows + 1))
   \<and> (fst (generate_test_csv ''out.csv'' 1000 9 w) = Inr ()
     \<longrightarrow> (\<exists>content. files (snd (generate_test_csv ''out.csv'' 1000 9 w)) ''out.csv'' = Some content
              \<and> hd (read_csv content)
                   = [''numeric_0'', ''numeric_1'', ''numeric_2'', ''category_0'', ''category_1'',
                      ''category_2'', ''text_0'', ''text_1'', ''text_2'']
              \<and> length (read_csv content) = 1001
              \<and> count_list content LF = 1001))
   \<and> (fst (generate_test_csv ''out.csv'' 0 9 w) = Inr ()
     \<longrightarrow> files (snd (generate_test_csv ''out.csv'' 0 9 w)) ''out.csv''
           = Some (''numeric_0,numeric_1,numeric_2,category_0,category_1,category_2,text_0,text_1,text_2''
                   @ [CR, LF]))"
proof (intro conjI impI)
  assume "3 \<le> num_cols \<and> 0 \<le> rows \<and> fst (generate_test_csv path rows num_cols w) = Inr ()"
  then show "\<exists>data. files (snd (generate_test_csv path rows num_cols w)) path
                      = Some (concat (map writerow_str (headers num_cols # data)))
              \<and> read_csv (concat (map writerow_str (headers num_cols # data)))
                      = headers num_cols # data
              \<and> length (headers num_cols) = nat num_cols
              \<and> length data = nat rows
              \<and> (\<forall>row \<in> set data. length row = nat num_cols)
              \<and> count_list (concat (map writerow_str (headers num_cols # data))) LF
                      = nat rows + 1"
    using run_shape [of num_cols rows path w] by blast
next
  assume a: "fst (generate_test_csv ''out.csv'' 1000 9 w) = Inr ()"
  from run_shape [of 9 1000 "''out.csv''" w, OF _ _ a] obtain data where
    d: "files (snd (generate_test_csv ''out.csv'' 1000 9 w)) ''out.csv''
          = Some (concat (map writerow_str (headers 9 # data)))"
       "read_csv (concat (map writerow_str (headers 9 # data))) = headers 9 # data"
       "length data = nat 1000"
       "count_list (concat (map writerow_str (headers 9 # data))) LF = nat 1000 + 1"
    by auto
  show "\<exists>content. files (snd (generate_test_csv ''out.csv'' 1000 9 w)) ''out.csv'' = Some content
              \<and> hd (read_csv content)
                   = [''numeric_0'', ''numeric_1'', ''numeric_2'', ''category_0'', ''category_1'',
                      ''category_2'', ''text_0'', ''text_1'', ''text_2'']
              \<and> length (read_csv content) = 1001
              \<and> count_list content LF = 1001"
    using d by (intro exI [of _ "concat (map writerow_str (headers 9 # data))"])
               (simp add: headers_9 [symmetric])
next
  assume a: "fst (generate_test_csv ''out.csv'' 0 9 w) = Inr ()"
  from run_shape [of 9 0 "''out.csv''" w, OF _ _ a] obtain data where
    d: "files (snd (generate_test_csv ''out.csv'' 0 9 w)) ''out.csv''
          = Some (concat (map writerow_str (headers 9 # data)))"
       "length data = nat 0"
    by auto
  then have "data = []" by simp
  with d(1) show "files (snd (generate_test_csv ''out.csv'' 0 9 w)) ''out.csv''
           = Some (''numeric_0,numeric_1,numeric_2,category_0,category_1,category_2,text_0,text_1,text_2''
                   @ [CR, LF])"
    by (simp add: header_line_9)
qed

theorem csv_shape_witness:
  "fst (generate_test_csv ''out.csv'' 1000 9 world_zero) = Inr ()
   \<and> fst (generate_test_csv ''out.csv'' 0 9 world_zero) = Inr ()
   \<and> (\<exists>content. files (snd (generate_test_csv ''out.csv'' 1000 9 world_zero)) ''out.csv'' = Some content
         \<and> hd (read_csv content)
              = [''numeric_0'', ''numeric_1'', ''numeric_2'', ''category_0'', ''category_1'',
                 ''category_2'', ''text_0'', ''text_1'', ''text_2'']
         \<and> length (read_csv content) = 1001
         \<and> count_list content LF = 1001)
   \<and> (\<exists>data. files (snd (generate_test_csv ''out.csv'' 1000 9 world_zero)) ''out.csv''
                 = Some (concat (map writerow_str (headers 9 # data)))
         \<and> length data = 1000 \<and> (\<forall>row \<in> set data. length row = 9))
   \<and> files (snd (generate_test_csv ''out.csv'' 0 9 world_zero)) ''out.csv''
        = Some (''numeric_0,numeric_1,numeric_2,category_0,category_1,category_2,text_0,text_1,text_2''
                @ [CR, LF])"
proof -
  have a: "fst (generate_test_csv ''out.csv'' 1000 9 world_zero) = Inr ()"
    by (rule run_completes) (simp_all add: world_zero_fields float_overflow_def)
  have b: "fst (generate_test_csv ''out.csv'' 0 9 world_zero) = Inr ()"
    by (rule run_completes) (simp_all add: world_zero_fields float_overflow_def)
  have c: "(3::int) \<le> 9 \<and> (0::int) \<le> 1000" by simp
  from csv_shape [of 9 1000 "''out.csv''" world_zero] a b c
  show ?thesis by (auto simp: a b)
qed

lemma run_no_rows:
  assumes "rows \<le> 0" "writable w path"
  shows "files (snd (generate_test_csv path rows num_cols w)) path
           = Some (writerow_str (headers num_cols))
       \<and> fst (generate_test_csv path rows num_cols w)
           = int_div_float rows (clock w (Suc 0) - clock w 0)"
proof -
  from make_categories_cats_ok [of num_cols "rand w"] obtain categories g where
    mk: "make_categories (py_range (categorical_cols num_cols)) (rand w) = Inr (categories, g)"
    by blast
  have r: "py_range rows = []" using assms(1) by (simp add: py_range_def)
  let ?w3 = "start_world path num_cols g w"
  have loop: "rows_loop (py_range rows) path rows num_cols categories (clock w 0) ?w3
                = (Inr (), ?w3)"
    by (simp add: r)
  note eq = run_eq [OF mk assms(2) loop start_world_fields(1)]
  show ?thesis unfolding eq by (simp add: start_world_fields)
qed

lemma headers_nonpositive:
  assumes "c \<le> 0" "c \<noteq> - 1"
  shows "headers c = []"
proof -
  have "c div 3 \<le> 0" using assms(1) by presburger
  moreover have "c - c div 3 - c div 3 \<le> 0" using assms by presburger
  ultimately show ?thesis
    by (simp add: headers_eq numeric_cols_def categorical_cols_def text_cols_def)
qed

theorem minus_one_column_header:
  "headers (- 1) = [''text_0'']
   \<and> files (snd (generate_test_csv ''out.csv'' 0 (- 1) world_zero)) ''out.csv''
        = Some (''text_0'' @ [CR, LF])"
proof -
  have "writerow_str [''text_0''] = ''text_0'' @ [CR, LF]"
    by (simp add: writerow_str_def render_field_def needs_quote_def special_chars_def
        comma_def dquote_def CR_def LF_def)
  then show ?thesis
    using run_no_rows [of 0 world_zero "''out.csv''" "- 1"]
    by (simp add: headers_m1 world_zero_fields)
qed

text \<open>
  C7, as amended: zero and negative counts are not rejected. A run with
  \<open>row_count \<le> 0\<close> whose output path can be opened leaves a file that holds the header
  record only. A run with \<open>column_count \<le> 0\<close> has a header with no columns, unless
  \<open>column_count = -1\<close>: there the numeric and the categorical counts are \<open>-1\<close> and
  the text count is \<open>1\<close>, and the header is the single column \<open>text_0\<close>.
\<close>

theorem degenerate_counts:
  "(rows \<le> 0 \<and> writable w path
      \<longrightarrow> files (snd (generate_test_csv path rows num_cols w)) path
            = Some (writerow_str (headers num_cols)))
   \<and> (num_cols \<le> 0 \<and> num_cols \<noteq> - 1 \<longrightarrow> headers num_cols = [])
   \<and> headers (- 1) = [''text_0'']
   \<and> (writable w path \<and> (\<forall>n. clock w (Suc n) \<noteq> clock w 0) \<and> \<not> float_overflow rows
      \<longrightarrow> fst (generate_test_csv path rows num_cols w) = Inr ())"
  using run_no_rows [of rows w path num_cols] headers_nonpositive [of num_cols]
      run_completes [of w path rows num_cols]
  by (simp add: headers_m1)

theorem degenerate_counts_witness:
  "files (snd (generate_test_csv ''out.csv'' (- 5) 0 world_zero)) ''out.csv'' = Some [CR, LF]
   \<and> headers 0 = [] \<and> headers (- 2) = []
   \<and> fst (generate_test_csv ''out.csv'' (- 5) 0 world_zero) = Inr ()"
proof -
  have h: "(- 5 :: int) \<le> 0 \<and> writable world_zero ''out.csv''"
    "(0::int) \<le> 0 \<and> (0::int) \<noteq> - 1" "(- 2::int) \<le> 0 \<and> (- 2::int) \<noteq> - 1"
    "writable world_zero ''out.csv'' \<and> (\<forall>n. clock world_zero (Suc n) \<noteq> clock world_zero 0)
       \<and> \<not> float_overflow (- 5)"
    by (simp_all add: world_zero_fields float_overflow_def)
  have e: "writerow_str [] = [CR, LF]" by (simp add: writerow_str_def)
  from degenerate_counts [of "- 5" world_zero "''out.csv''" 0] h(1,2,4)
  have "files (snd (generate_test_csv ''out.csv'' (- 5) 0 world_zero)) ''out.csv''
          = Some (writerow_str (headers 0))" "headers 0 = []"
       "fst (generate_test_csv ''out.csv'' (- 5) 0 world_zero) = Inr ()" by blast+
  moreover from degenerate_counts [of 0 world_zero "''out.csv''" "- 2"] h(3)
  have "headers (- 2) = []" by blast
  ultimately show ?thesis by (simp add: e)
qed

text \<open>
  C10: with one or two columns the numeric and the categorical counts are zero, every
  header column is a text column, no category pool is generated (and the generator is
  not consulted for one), and every field of every row is a text field.
\<close>

theorem text_only_columns:
  "num_cols = 1 \<or> num_cols = 2
   \<Longrightarrow> numeric_cols num_cols = 0 \<and> categorical_cols num_cols = 0 \<and> text_cols num_cols = num_cols
     \<and> headers num_cols = map (\<lambda>i. ''text_'' @ str_nat i) [0..<nat num_cols]
     \<and> make_categories (py_range (categorical_cols num_cols)) g = Inr ([], g)
     \<and> gen_row num_cols categories g = text_loop (py_range num_cols) [] g
     \<and> (\<exists>row g'. gen_row num_cols categories g = Inr (row, g') \<and> length row = nat num_cols
           \<and> list_all text_ok row)
     \<and> (writable w path
         \<longrightarrow> (\<exists>data. files (snd (generate_test_csv path rows num_cols w)) path
                        = Some (concat (map writerow_str (headers num_cols # data)))
                \<and> (\<forall>row \<in> set data. length row = nat num_cols \<and> list_all text_ok row)))"
proof -
  assume nc: "num_cols = 1 \<or> num_cols = 2"
  then have z: "numeric_cols num_cols = 0" "categorical_cols num_cols = 0"
    "text_cols num_cols = num_cols"
    by (auto simp: numeric_cols_def categorical_cols_def text_cols_def)
  have hd: "headers num_cols = map (\<lambda>i. ''text_'' @ str_nat i) [0..<nat num_cols]"
    by (simp add: headers_eq z)
  have mk: "make_categories (py_range (categorical_cols num_cols)) g' = Inr ([], g')" for g'
    by (simp add: z py_range_def)
  have gr: "gen_row num_cols categories g = text_loop (py_range num_cols) [] g"
    by (simp add: gen_row_def z py_range_def)
  from text_loop_ok [of "py_range num_cols" "[]" g] obtain fs g' where
    "text_loop (py_range num_cols) [] g = Inr (fs, g')" "length fs = nat num_cols"
    "list_all text_ok fs" by (auto simp: length_py_range)
  then have one: "\<exists>row g'. gen_row num_cols categories g = Inr (row, g')
       \<and> length row = nat num_cols \<and> list_all text_ok row"
    unfolding gr by blast
  have fl: "\<exists>data. files (snd (generate_test_csv path rows num_cols w)) path
                        = Some (concat (map writerow_str (headers num_cols # data)))
                \<and> (\<forall>row \<in> set data. length row = nat num_cols \<and> list_all text_ok row)"
    if wr: "writable w path"
  proof -
    from run_rows [OF wr, of num_cols rows] obtain cats g0 data where
      d: "files (snd (generate_test_csv path rows num_cols w)) path
            = Some (concat (map writerow_str (headers num_cols # data)))"
         "list_all (row_ok num_cols cats) data" by blast
    have "length row = nat num_cols \<and> list_all text_ok row" if "row_ok num_cols cats row" for row
      using that by (simp add: row_ok_def Let_def z)
    then show ?thesis using d by (auto simp: list_all_iff)
  qed
  show ?thesis using z hd mk [of g] gr one fl by blast
qed

theorem text_only_columns_witness:
  "headers 2 = [''text_0'', ''text_1'']
   \<and> numeric_cols 2 = 0 \<and> categorical_cols 2 = 0 \<and> text_cols 2 = 2
   \<and> make_categories (py_range (categorical_cols 2)) rng_zero = Inr ([], rng_zero)
   \<and> (\<exists>data. files (snd (generate_test_csv ''out.csv'' 3 2 world_zero)) ''out.csv''
                 = Some (concat (map writerow_str (headers 2 # data)))
         \<and> (\<forall>row \<in> set data. length row = nat 2 \<and> list_all text_ok row))"
proof -
  have h: "(2::int) = 1 \<or> (2::int) = 2" by simp
  have wr: "writable world_zero ''out.csv''" by (simp add: world_zero_fields)
  have s: "map (\<lambda>i. ''text_'' @ str_nat i) [0..<nat 2] = [''text_0'', ''text_1'']"
    by (simp add: upt_rec str_nat_small digit_char_def)
  note t = text_only_columns [OF h, of rng_zero "[]" world_zero "''out.csv''" 3]
  from t have a: "numeric_cols 2 = 0" "categorical_cols 2 = 0" "text_cols 2 = 2"
    "headers 2 = map (\<lambda>i. ''text_'' @ str_nat i) [0..<nat 2]"
    "make_categories (py_range (categorical_cols 2)) rng_zero = Inr ([], rng_zero)"
    by blast+
  from t wr have b: "\<exists>data. files (snd (generate_test_csv ''out.csv'' 3 2 world_zero)) ''out.csv''
                 = Some (concat (map writerow_str (headers 2 # data)))
         \<and> (\<forall>row \<in> set data. length row = nat 2 \<and> list_all text_ok row)"
    by blast
  show ?thesis using a(1,2,3,5) a(4) [unfolded s] b by blast
qed

lemma format_2f_nonempty: "format_2f x \<noteq> []"
  by (simp add: format_2f_def Let_def)

lemma numeric_step:
  "\<exists>g'. numeric_loop [i] row g
          = (row @ [if fst (random_py g) < 0.05 then []
                    else format_2f (fst (gauss 100 50 (snd (random_py g))))], g')"
  by (simp add: Let_def split: prod.splits)

lemma text_step:
  "\<exists>f g'. text_loop [i] row g = Inr (row @ [f], g')
       \<and> (f = [] \<longleftrightarrow> fst (random_py g) < 0.03) \<and> text_ok f"
proof -
  obtain u g1 where u: "random_py g = (u, g1)" by (cases "random_py g")
  from randint_ok [of 10 50 g1] obtain n g2 where
    n: "randint 10 50 g1 = Inr (n, g2)" "10 \<le> n" "n \<le> 50" by auto
  have ne: "alphabet \<noteq> []" by (simp add: alphabet_def)
  from choices_ok [OF ne, of n g2] obtain cs g3 where
    cs: "choices alphabet n g2 = Inr (cs, g3)" "length cs = nat n" "set cs \<subseteq> set alphabet"
    by blast
  have ok: "text_ok cs" using text_field_ok [OF cs(2) n(2) n(3) cs(3)] .
  have nonempty: "cs \<noteq> []" using cs(2) n(2) by auto
  show ?thesis
  proof (cases "u < 0.03")
    case True
    then have "text_loop [i] row g = Inr (row @ [[]], g1)" using u by simp
    then show ?thesis using True u by (simp add: text_ok_def)
  next
    case False
    then have "text_loop [i] row g = Inr (row @ [cs], g3)"
      using u n(1) cs(1) by (simp add: alphabet_def)
    then show ?thesis using False u ok nonempty by simp
  qed
qed

lemma text_ok_iff:
  "text_ok f \<longleftrightarrow> f = [] \<or> (10 \<le> length f \<and> length f \<le> 50
       \<and> (\<forall>c \<in> set f. c \<in> set (ascii_letters @ digits @ '' '')))"
  by (simp add: text_ok_def alphabet_def list_all_iff)

lemma alphabet_chars:
  "ascii_letters @ digits @ '' ''
     = ''abcdefghijklmnopqrstuvwxyzABCDEFGHIJKLMNOPQRSTUVWXYZ0123456789 ''"
  by (simp add: ascii_letters_def ascii_lowercase_def ascii_uppercase_def digits_def)

lemma row_ok_numeric:
  assumes "row_ok num_cols categories row" "k < nat (numeric_cols num_cols)"
  shows "numeric_ok (row ! k)"
proof -
  from assms(1) have "list_all numeric_ok (take (nat (numeric_cols num_cols)) row)"
    and "nat (numeric_cols num_cols) \<le> length row"
    by (simp_all add: row_ok_def Let_def)
  then have "numeric_ok (take (nat (numeric_cols num_cols)) row ! k)"
    using assms(2) by (simp add: list_all_length)
  then show ?thesis using assms(2) by simp
qed

lemma row_ok_text:
  assumes "row_ok num_cols categories row" "k < nat (text_cols num_cols)"
  shows "text_ok (row ! (nat (numeric_cols num_cols) + nat (categorical_cols num_cols) + k))"
proof -
  let ?m = "nat (numeric_cols num_cols) + nat (categorical_cols num_cols)"
  from assms(1) have a: "list_all text_ok (drop ?m row)"
    and l: "length row = ?m + nat (text_cols num_cols)"
    by (simp_all add: row_ok_def Let_def)
  have "k < length (drop ?m row)" using l assms(2) by simp
  then have "text_ok (drop ?m row ! k)" using a by (simp add: list_all_length)
  then show ?thesis using l by simp
qed

lemma row_ok_categorical:
  assumes "row_ok num_cols categories row" "i < nat (categorical_cols num_cols)"
  shows "row ! (nat (numeric_cols num_cols) + i) = []
       \<or> row ! (nat (numeric_cols num_cols) + i) \<in> set (categories ! i)"
  using assms by (simp add: row_ok_def Let_def)

text \<open>
  C4: before the file is opened one pool is made for each categorical column \<open>i\<close>; it
  has between 5 and 50 distinct labels \<open>Cat<i>_<j>\<close>, numbered from zero. Every row
  is generated from these same pools, and a categorical field that is not empty is a
  member of the pool of its column.
\<close>

theorem category_pools:
  "\<exists>categories g.
       make_categories (py_range (categorical_cols num_cols)) (rand w) = Inr (categories, g)
     \<and> length categories = nat (categorical_cols num_cols)
     \<and> (\<forall>i < length categories.
           5 \<le> length (categories ! i) \<and> length (categories ! i) \<le> 50
           \<and> distinct (categories ! i)
           \<and> categories ! i
               = map (\<lambda>j. ''Cat'' @ str_nat i @ ''_'' @ str_nat j) [0..<length (categories ! i)])
     \<and> (\<forall>g0. \<exists>row g1. gen_row num_cols categories g0 = Inr (row, g1)
           \<and> (\<forall>i < length categories.
                 row ! (nat (numeric_cols num_cols) + i) = []
                 \<or> row ! (nat (numeric_cols num_cols) + i) \<in> set (categories ! i)))
     \<and> (writable w path
         \<longrightarrow> (\<exists>data. files (snd (generate_test_csv path rows num_cols w)) path
                        = Some (concat (map writerow_str (headers num_cols # data)))
                \<and> (\<forall>row \<in> set data. \<forall>i < length categories.
                      row ! (nat (numeric_cols num_cols) + i) = []
                      \<or> row ! (nat (numeric_cols num_cols) + i) \<in> set (categories ! i))))"
proof -
  from make_categories_cats_ok [of num_cols "rand w"] obtain categories g where
    mk: "make_categories (py_range (categorical_cols num_cols)) (rand w) = Inr (categories, g)"
    and ok: "cats_ok num_cols categories" by blast
  have len: "length categories = nat (categorical_cols num_cols)"
    using ok by (simp add: cats_ok_def)
  have pools: "\<forall>i < length categories.
           5 \<le> length (categories ! i) \<and> length (categories ! i) \<le> 50
           \<and> distinct (categories ! i)
           \<and> categories ! i
               = map (\<lambda>j. ''Cat'' @ str_nat i @ ''_'' @ str_nat j) [0..<length (categories ! i)]"
    using ok unfolding cats_ok_def pool_ok_def by blast
  have each: "\<exists>row g1. gen_row num_cols categories g0 = Inr (row, g1)
           \<and> (\<forall>i < length categories.
                 row ! (nat (numeric_cols num_cols) + i) = []
                 \<or> row ! (nat (numeric_cols num_cols) + i) \<in> set (categories ! i))" for g0
  proof -
    from gen_row_ok [OF ok, of g0] obtain row g1 where
      r: "gen_row num_cols categories g0 = Inr (row, g1)" "row_ok num_cols categories row"
      by blast
    show ?thesis using r(1) row_ok_categorical [OF r(2)] len by auto
  qed
  have run: "\<exists>data. files (snd (generate_test_csv path rows num_cols w)) path
                        = Some (concat (map writerow_str (headers num_cols # data)))
                \<and> (\<forall>row \<in> set data. \<forall>i < length categories.
                      row ! (nat (numeric_cols num_cols) + i) = []
                      \<or> row ! (nat (numeric_cols num_cols) + i) \<in> set (categories ! i))"
    if wr: "writable w path"
  proof -
    from run_file [OF mk wr, of rows] obtain data where
      d: "files (snd (generate_test_csv path rows num_cols w)) path
            = Some (concat (map writerow_str (headers num_cols # data)))"
         "list_all (row_ok num_cols categories) data" by blast
    have "\<forall>row \<in> set data. \<forall>i < length categories.
            row ! (nat (numeric_cols num_cols) + i) = []
            \<or> row ! (nat (numeric_cols num_cols) + i) \<in> set (categories ! i)"
      using d(2) row_ok_categorical len by (auto simp: list_all_iff)
    with d(1) show ?thesis by blast
  qed
  show ?thesis using mk len pools each run by blast
qed

theorem category_pools_witness:
  "\<exists>categories g.
       make_categories (py_range (categorical_cols 9)) (rand world_zero) = Inr (categories, g)
     \<and> length categories = 3
     \<and> (\<exists>data. files (snd (generate_test_csv ''out.csv'' 4 9 world_zero)) ''out.csv''
                   = Some (concat (map writerow_str (headers 9 # data)))
           \<and> (\<forall>row \<in> set data. \<forall>i < length categories.
                 row ! (nat (numeric_cols 9) + i) = []
                 \<or> row ! (nat (numeric_cols 9) + i) \<in> set (categories ! i)))"
proof -
  have wr: "writable world_zero ''out.csv''" by (simp add: world_zero_fields)
  have n: "nat (categorical_cols 9) = 3" by (simp add: categorical_cols_def)
  from category_pools [of 9 world_zero "''out.csv''" 4] wr
  show ?thesis unfolding n by blast
qed

lemma bit_length_le: "n < 2 ^ k \<Longrightarrow> bit_length n \<le> k"
proof (induction k arbitrary: n)
  case 0
  then have "n = 0" by simp
  then show ?case by (subst bit_length.simps) simp
next
  case (Suc k)
  show ?case
  proof (cases "n = 0")
    case True
    then show ?thesis by (subst bit_length.simps) simp
  next
    case False
    have "n div 2 < 2 ^ k" using Suc.prems by simp
    then have "bit_length (n div 2) \<le> k" by (rule Suc.IH)
    then show ?thesis using False by (subst bit_length.simps) simp
  qed
qed

text \<open>A double is not changed by rounding.\<close>

lemma fl_round_double: "mant x < 2 ^ 53 \<Longrightarrow> - 1074 \<le> expo x \<Longrightarrow> fl_round x = x"
  using bit_length_le [of "mant x" 53] by (simp add: fl_round_def Let_def)

lemma float_of_small_int:
  "\<bar>n\<bar> < 2 ^ 53 \<Longrightarrow> float_of_int n = \<lparr>neg = (n < 0), mant = nat \<bar>n\<bar>, expo = 0\<rparr>"
  unfolding float_of_int_def by (rule fl_round_double) simp_all

lemma std_normal_bound:
  "mant (std_normal t) * 2 ^ nat (expo (std_normal t)) \<le> 9 * 2 ^ nat (- expo (std_normal t))"
  by (simp add: std_normal_def Let_def)

lemma gauss_value:
  "fst (gauss mu sigma g)
     = fl_add (float_of_int mu) (fl_mul (std_normal (normals g 0)) (float_of_int sigma))"
  by (simp add: gauss_def Let_def)

lemma round_half_even_error:
  assumes "0 < b"
  shows "2 * \<bar>int (round_half_even a b) * int b - int a\<bar> \<le> int b"
proof -
  define q where "q = a div b"
  define r where "r = a mod b"
  have a: "int a = int q * int b + int r"
    unfolding q_def r_def by (metis of_nat_add of_nat_mult div_mult_mod_eq)
  have r: "r < b" unfolding r_def using assms by simp
  consider "2 * r < b" | "b < 2 * r" | "2 * r = b" by linarith
  then show ?thesis
  proof cases
    case 1
    then have "round_half_even a b = q"
      by (simp add: round_half_even_def Let_def q_def r_def)
    then show ?thesis using a 1 by simp
  next
    case 2
    then have "round_half_even a b = q + 1"
      by (simp add: round_half_even_def Let_def q_def r_def)
    then show ?thesis using a 2 r by (simp add: algebra_simps)
  next
    case 3
    then have "round_half_even a b = q \<or> round_half_even a b = q + 1"
      by (simp add: round_half_even_def Let_def q_def r_def)
    then show ?thesis using a 3 by (auto simp: algebra_simps)
  qed
qed

lemma bit_length_lower: "0 < n \<Longrightarrow> 2 ^ (bit_length n - 1) \<le> n"
proof (induction n rule: bit_length.induct)
  case (1 n)
  show ?case
  proof (cases "n div 2 = 0")
    case True
    then have "bit_length (n div 2) = 0" by (subst bit_length.simps) simp
    then have "bit_length n = 1" using 1(2) by (subst bit_length.simps) simp
    then show ?thesis using 1(2) by simp
  next
    case False
    then have ih: "2 ^ (bit_length (n div 2) - 1) \<le> n div 2" using 1 by simp
    have pos: "0 < bit_length (n div 2)" using False by (subst bit_length.simps) simp
    have "bit_length n = Suc (bit_length (n div 2))" using 1(2) by (subst bit_length.simps) simp
    then have "(2::nat) ^ (bit_length n - 1) = 2 * 2 ^ (bit_length (n div 2) - 1)"
      using pos by (cases "bit_length (n div 2)") simp_all
    also have "\<dots> \<le> 2 * (n div 2)" using ih by simp
    also have "\<dots> \<le> n" by simp
    finally show ?thesis .
  qed
qed

lemma abs_float_val: "\<bar>float_val x\<bar> = of_nat (mant x) * 2 powi (expo x)"
  by (simp add: float_val_def abs_mult)

lemma fl_round_error:
  "\<bar>float_val (fl_round x) - float_val x\<bar> \<le> \<bar>float_val x\<bar> * 2 powi (- 53) + 2 powi (- 1075)"
proof -
  define m where "m = mant x"
  define e where "e = expo x"
  define s where "s = max (int (bit_length m) - 53) (- 1074 - e)"
  have rhs: "0 \<le> \<bar>float_val x\<bar> * 2 powi (- 53) + (2::rat) powi (- 1075)"
    by (intro add_nonneg_nonneg mult_nonneg_nonneg) simp_all
  show ?thesis
  proof (cases "s \<le> 0")
    case True
    then have "fl_round x = x" by (simp add: fl_round_def Let_def s_def m_def e_def)
    then show ?thesis using rhs by simp
  next
    case False
    define k where "k = nat s"
    have sk: "s = int k" "0 < k" using False by (simp_all add: k_def)
    define m' where "m' = round_half_even m (2 ^ k)"
    have "fl_round x
            = (if s \<le> 0 then x else x\<lparr>mant := round_half_even m (2 ^ nat s), expo := e + s\<rparr>)"
      by (simp add: fl_round_def Let_def s_def m_def e_def)
    then have fr: "fl_round x = x\<lparr>mant := m', expo := e + s\<rparr>"
      using False by (simp add: m'_def k_def)
    define sg :: rat where "sg = (if neg x then - 1 else 1)"
    have sg: "\<bar>sg\<bar> = 1" by (simp add: sg_def)
    have p: "(2::rat) powi (e + s) = 2 powi e * 2 ^ k"
      unfolding sk by (simp add: power_int_add)
    have p': "(2::rat) powi (s + expo x) = 2 ^ k * 2 powi expo x"
      using p by (simp add: e_def add.commute mult.commute)
    have "float_val (fl_round x) - float_val x
            = sg * 2 powi e * (of_nat m' * 2 ^ k - of_nat m)"
      unfolding fr by (simp add: float_val_def sg_def p' m_def e_def algebra_simps)
    then have d: "\<bar>float_val (fl_round x) - float_val x\<bar>
            = 2 powi e * \<bar>of_nat m' * 2 ^ k - (of_nat m :: rat)\<bar>"
      using sg by (simp add: abs_mult)
    have "2 * \<bar>int m' * int (2 ^ k) - int m\<bar> \<le> int (2 ^ k)"
      unfolding m'_def by (rule round_half_even_error) simp
    then have "(of_int (2 * \<bar>int m' * int (2 ^ k) - int m\<bar>) :: rat) \<le> of_int (int (2 ^ k))"
      by (simp only: of_int_le_iff)
    then have h: "2 * \<bar>of_nat m' * 2 ^ k - (of_nat m :: rat)\<bar> \<le> 2 ^ k"
      by simp
    have b1: "\<bar>float_val (fl_round x) - float_val x\<bar> * 2 \<le> 2 powi e * 2 ^ k"
      unfolding d using h by (simp add: mult_left_mono mult.commute mult.left_commute)
    have b2: "2 powi e * 2 ^ k \<le> (\<bar>float_val x\<bar> * 2 powi (- 53) + (2::rat) powi (- 1075)) * 2"
    proof (cases "int (bit_length m) - 53 \<le> - 1074 - e")
      case True
      then have "s = - 1074 - e" by (simp add: s_def)
      then have "e + s = - 1074" by simp
      then have "(2::rat) powi e * 2 ^ k = 2 powi (- 1074)" using p by simp
      also have "\<dots> = 2 powi (- 1075) * 2"
        using power_int_add [of "2::rat" "- 1075" 1] by simp
      also have "\<dots> \<le> (\<bar>float_val x\<bar> * 2 powi (- 53) + (2::rat) powi (- 1075)) * 2"
        by (simp add: mult_nonneg_nonneg)
      finally show ?thesis .
    next
      case False
      then have s: "s = int (bit_length m) - 53" by (simp add: s_def)
      then have bl: "54 \<le> bit_length m" using sk by linarith
      have mpos: "0 < m"
      proof (rule ccontr)
        assume "\<not> 0 < m"
        then have "bit_length m = 0" by (subst bit_length.simps) simp
        then show False using bl by simp
      qed
      have "2 ^ (bit_length m - 1) \<le> m" using mpos by (rule bit_length_lower)
      then have lo: "(2::rat) ^ (bit_length m - 1) \<le> of_nat m"
        by (metis of_nat_le_iff of_nat_numeral of_nat_power)
      have kk: "k = bit_length m - 53" using s sk by linarith
      define P :: rat where "P = 2 ^ 52"
      define c :: rat where "c = 2 powi (- 53) * 2"
      have c1: "P * c = 1" by (simp add: P_def c_def)
      have c0: "0 \<le> 2 powi e * c" by (simp add: c_def)
      have "bit_length m - 1 = k + 52" using kk bl by simp
      then have A: "(2::rat) ^ k * P \<le> of_nat m" using lo by (simp add: power_add P_def)
      have "(2 ^ k * P) * (2 powi e * c) = 2 powi e * 2 ^ k * (P * c)"
        by (simp only: ac_simps)
      then have "2 powi e * 2 ^ k = (2 ^ k * P) * (2 powi e * c)" using c1 by simp
      also have "\<dots> \<le> of_nat m * (2 powi e * c)" using A c0 by (rule mult_right_mono)
      also have "\<dots> = \<bar>float_val x\<bar> * 2 powi (- 53) * 2"
        by (simp only: abs_float_val m_def e_def c_def mult.assoc)
      also have "\<dots> \<le> (\<bar>float_val x\<bar> * 2 powi (- 53) + (2::rat) powi (- 1075)) * 2"
        by simp
      finally show ?thesis .
    qed
    from b1 b2 show ?thesis by simp
  qed
qed

lemma float_val_int: "\<bar>n\<bar> < 2 ^ 53 \<Longrightarrow> float_val (float_of_int n) = of_int n"
  by (simp add: float_of_small_int float_val_def)

lemma fl_mul_error:
  "\<bar>float_val (fl_mul a b) - float_val a * float_val b\<bar>
     \<le> \<bar>float_val a * float_val b\<bar> * 2 powi (- 53) + 2 powi (- 1075)"
proof -
  let ?p = "\<lparr>neg = (neg a \<noteq> neg b), mant = mant a * mant b, expo = expo a + expo b\<rparr>"
  have "float_val ?p = float_val a * float_val b"
    by (simp add: float_val_def power_int_add)
  then show ?thesis using fl_round_error [of ?p] by (simp add: fl_mul_def)
qed

lemma signed_mant_val:
  "e \<le> expo a \<Longrightarrow> of_int (signed_mant a e) * 2 powi e = float_val a"
proof -
  assume "e \<le> expo a"
  then have "(2::rat) powi (expo a) = 2 ^ nat (expo a - e) * 2 powi e"
    using power_int_add [of "2::rat" "expo a - e" e] by (simp add: power_int_nonneg_exp)
  then show ?thesis by (simp add: signed_mant_def float_val_def)
qed

lemma fl_add_error:
  "\<bar>float_val (fl_add a b) - (float_val a + float_val b)\<bar>
     \<le> \<bar>float_val a + float_val b\<bar> * 2 powi (- 53) + 2 powi (- 1075)"
proof -
  define e where "e = min (expo a) (expo b)"
  define s where "s = signed_mant a e + signed_mant b e"
  let ?p = "\<lparr>neg = (if s = 0 then neg a \<and> neg b else s < 0), mant = nat \<bar>s\<bar>, expo = e\<rparr>"
  have "float_val ?p = of_int s * 2 powi e"
    by (simp add: float_val_def)
  also have "\<dots> = of_int (signed_mant a e) * 2 powi e + of_int (signed_mant b e) * 2 powi e"
    by (simp add: s_def algebra_simps)
  also have "\<dots> = float_val a + float_val b"
    by (simp add: signed_mant_val e_def)
  finally have "float_val ?p = float_val a + float_val b" .
  moreover have "fl_add a b = fl_round ?p" by (simp add: fl_add_def Let_def e_def s_def)
  ultimately show ?thesis using fl_round_error [of ?p] by simp
qed

lemma std_normal_val: "\<bar>float_val (std_normal t)\<bar> \<le> 9"
proof -
  define z where "z = std_normal t"
  have b: "mant z * 2 ^ nat (expo z) \<le> 9 * 2 ^ nat (- expo z)"
    unfolding z_def by (rule std_normal_bound)
  show ?thesis unfolding z_def [symmetric] abs_float_val
  proof (cases "0 \<le> expo z")
    case True
    then have "mant z * 2 ^ nat (expo z) \<le> 9" using b by simp
    then have "(of_nat (mant z * 2 ^ nat (expo z)) :: rat) \<le> of_nat 9"
      by (simp only: of_nat_le_iff)
    then show "of_nat (mant z) * (2::rat) powi expo z \<le> 9"
      using True by (simp add: power_int_nonneg_exp)
  next
    case False
    then have "mant z \<le> 9 * 2 ^ nat (- expo z)" using b by simp
    then have "(of_nat (mant z) :: rat) \<le> of_nat (9 * 2 ^ nat (- expo z))"
      by (simp only: of_nat_le_iff)
    then have "(of_nat (mant z) :: rat) \<le> 9 * 2 ^ nat (- expo z)" by simp
    then have "of_nat (mant z) * (2::rat) powi expo z \<le> 9 * 2 ^ nat (- expo z) * 2 powi expo z"
      by (rule mult_right_mono) simp
    also have "(2::rat) ^ nat (- expo z) * 2 powi expo z = 1"
      using False power_int_add [of "2::rat" "- expo z" "expo z"]
      by (simp add: power_int_nonneg_exp)
    then have "9 * (2::rat) ^ nat (- expo z) * 2 powi expo z = 9" by simp
    finally show "of_nat (mant z) * (2::rat) powi expo z \<le> 9" .
  qed
qed

text \<open>The sample of \<^verbatim>\<open>gauss(mu, sigma)\<close> is \<open>mu + z * sigma\<close> up to two roundings.\<close>

lemma gauss_100_50_accuracy:
  "\<bar>float_val (fst (gauss 100 50 g)) - (100 + float_val (std_normal (normals g 0)) * 50)\<bar>
     \<le> 2 powi (- 43)"
proof -
  define z where "z = float_val (std_normal (normals g 0))"
  define p where "p = float_val (fl_mul (std_normal (normals g 0)) (float_of_int 50))"
  define r where "r = float_val (fst (gauss 100 50 g))"
  define u :: rat where "u = 2 powi (- 53)"
  define v :: rat where "v = 2 powi (- 1075)"
  have z9: "\<bar>z\<bar> \<le> 9" unfolding z_def by (rule std_normal_val)
  have m1: "\<bar>p - z * 50\<bar> \<le> \<bar>z * 50\<bar> * u + v"
    unfolding p_def z_def u_def v_def
    using fl_mul_error [of "std_normal (normals g 0)" "float_of_int 50"]
    by (simp add: float_val_int)
  have z450: "\<bar>z * 50\<bar> \<le> 450" using z9 by (simp add: abs_mult)
  have u0: "0 \<le> u" "0 \<le> v" by (simp_all add: u_def v_def)
  have "\<bar>z * 50\<bar> * u \<le> 450 * u" using z450 u0(1) by (rule mult_right_mono)
  with m1 have e1: "\<bar>p - z * 50\<bar> \<le> 450 * u + v" by linarith
  have uv: "450 * u + v \<le> 1" by (simp add: u_def v_def)
  have pb: "\<bar>100 + p\<bar> \<le> 551" using e1 uv z450 by linarith
  have m2: "\<bar>r - (100 + p)\<bar> \<le> \<bar>100 + p\<bar> * u + v"
    unfolding r_def p_def u_def v_def gauss_value
    using fl_add_error [of "float_of_int 100"
        "fl_mul (std_normal (normals g 0)) (float_of_int 50)"]
    by (simp add: float_val_int)
  have "\<bar>100 + p\<bar> * u \<le> 551 * u" using pb u0(1) by (rule mult_right_mono)
  with m2 have e2: "\<bar>r - (100 + p)\<bar> \<le> 551 * u + v" by linarith
  have "\<bar>r - (100 + z * 50)\<bar> \<le> \<bar>r - (100 + p)\<bar> + \<bar>p - z * 50\<bar>" by linarith
  also have "\<dots> \<le> 1001 * u + 2 * v" using e1 e2 by linarith
  also have "\<dots> \<le> 2 powi (- 43)" by (simp add: u_def v_def)
  finally show ?thesis unfolding r_def z_def .
qed

text \<open>
  C5: a numeric field is empty exactly when the draw of \<^verbatim>\<open>random()\<close>, a number in
  \<open>[0, 1)\<close>, is below 0.05; otherwise it is the \<^verbatim>\<open>.2f\<close> rendering of the sample that
  \<^verbatim>\<open>gauss(100, 50)\<close> returns, which is \<open>100 + z * 50\<close> in double arithmetic for the
  library's standard normal variate \<open>z\<close>, a double of absolute value at most 9: the
  sample differs from the number \<open>100 + 50 z\<close> by at most \<open>2^-43\<close>. Such a
  rendering is a decimal numeral with exactly two digits after the point, and so is every
  non-empty numeric field of every row written.
\<close>

theorem numeric_fields:
  "(\<exists>g'. numeric_loop [i] row g
            = (row @ [if fst (random_py g) < 0.05 then []
                      else format_2f (fst (gauss 100 50 (snd (random_py g))))], g'))
   \<and> 0 \<le> fst (random_py g) \<and> fst (random_py g) < 1
   \<and> decimal_2f (format_2f x) \<and> format_2f x \<noteq> []
   \<and> (\<exists>fs g'. numeric_loop r row g = (row @ fs, g') \<and> length fs = length r
         \<and> (\<forall>f \<in> set fs. f = [] \<or> decimal_2f f))
   \<and> (writable w path
       \<longrightarrow> (\<exists>data. files (snd (generate_test_csv path rows num_cols w)) path
                      = Some (concat (map writerow_str (headers num_cols # data)))
              \<and> (\<forall>row \<in> set data. \<forall>k < nat (numeric_cols num_cols).
                    row ! k = [] \<or> decimal_2f (row ! k))))
   \<and> fst (gauss 100 50 g)
        = fl_add \<lparr>neg = False, mant = 100, expo = 0\<rparr>
            (fl_mul (std_normal (normals g 0)) \<lparr>neg = False, mant = 50, expo = 0\<rparr>)
   \<and> mant (std_normal t) * 2 ^ nat (expo (std_normal t)) \<le> 9 * 2 ^ nat (- expo (std_normal t))
   \<and> \<bar>float_val (std_normal t)\<bar> \<le> 9
   \<and> \<bar>float_val (fst (gauss 100 50 g)) - (100 + float_val (std_normal (normals g 0)) * 50)\<bar>
        \<le> 2 powi (- 43)"
proof -
  have loop: "\<exists>fs g'. numeric_loop r row g = (row @ fs, g') \<and> length fs = length r
         \<and> (\<forall>f \<in> set fs. f = [] \<or> decimal_2f f)"
    using numeric_loop_ok [of r row g] by (auto simp: list_all_iff numeric_ok_def)
  have run: "\<exists>data. files (snd (generate_test_csv path rows num_cols w)) path
                      = Some (concat (map writerow_str (headers num_cols # data)))
              \<and> (\<forall>row \<in> set data. \<forall>k < nat (numeric_cols num_cols).
                    row ! k = [] \<or> decimal_2f (row ! k))"
    if wr: "writable w path"
  proof -
    from run_rows [OF wr, of num_cols rows] obtain categories g0 data where
      d: "files (snd (generate_test_csv path rows num_cols w)) path
            = Some (concat (map writerow_str (headers num_cols # data)))"
         "list_all (row_ok num_cols categories) data" by blast
    have "\<forall>row \<in> set data. \<forall>k < nat (numeric_cols num_cols). row ! k = [] \<or> decimal_2f (row ! k)"
      using d(2) row_ok_numeric by (fastforce simp: list_all_iff numeric_ok_def)
    with d(1) show ?thesis by blast
  qed
  have sample: "fst (gauss 100 50 g)
        = fl_add \<lparr>neg = False, mant = 100, expo = 0\<rparr>
            (fl_mul (std_normal (normals g 0)) \<lparr>neg = False, mant = 50, expo = 0\<rparr>)"
    by (simp add: gauss_value float_of_small_int)
  from numeric_step [of i row g] random_py_range [of g] decimal_2f_format [of x]
      format_2f_nonempty [of x] loop run sample std_normal_bound [of t]
      std_normal_val [of t] gauss_100_50_accuracy [of g]
  show ?thesis by (intro conjI impI) simp_all
qed

lemma format_sample: "format_2f \<lparr>neg = False, mant = 105750, expo = - 10\<rparr> = ''103.27''"
  by (simp add: format_2f_def hundredths_def round_half_even_def Let_def
      str_nat.simps [of 103] str_nat.simps [of 10] str_nat_small digit_char_def)

lemma random_half: "fst (random_py rng_half) = 1 / 2"
  by (simp add: random_py_def next_bits_def rng_half_def)

lemma std_normal_half: "std_normal \<lparr>neg = False, mant = 67, expo = - 10\<rparr>
    = \<lparr>neg = False, mant = 67, expo = - 10\<rparr>"
  by (simp add: std_normal_def fl_round_double)

lemma gauss_half:
  "fst (gauss 100 50 (snd (random_py rng_half))) = \<lparr>neg = False, mant = 105750, expo = - 10\<rparr>"
  by (simp add: gauss_value float_of_small_int random_py_def next_bits_def rng_half_def
      std_normal_half fl_mul_def fl_add_def signed_mant_def fl_round_double)

text \<open>With other parameters the same variate gives another sample.\<close>

lemma gauss_half_standard:
  "fst (gauss 0 1 (snd (random_py rng_half))) = \<lparr>neg = False, mant = 67, expo = - 10\<rparr>"
  by (simp add: gauss_value float_of_small_int random_py_def next_bits_def rng_half_def
      std_normal_half fl_mul_def fl_add_def signed_mant_def fl_round_double)

theorem numeric_fields_witness:
  "fst (numeric_loop [0] [] rng_half) = [''103.27''] \<and> decimal_2f ''103.27''
   \<and> fst (numeric_loop [0] [] rng_zero) = [[]]
   \<and> fst (gauss 100 50 (snd (random_py rng_half)))
        = fl_add \<lparr>neg = False, mant = 100, expo = 0\<rparr>
            (fl_mul \<lparr>neg = False, mant = 67, expo = - 10\<rparr> \<lparr>neg = False, mant = 50, expo = 0\<rparr>)
   \<and> fst (gauss 100 50 (snd (random_py rng_half))) = \<lparr>neg = False, mant = 105750, expo = - 10\<rparr>
   \<and> fst (gauss 0 1 (snd (random_py rng_half))) = \<lparr>neg = False, mant = 67, expo = - 10\<rparr>
   \<and> (\<exists>data. files (snd (generate_test_csv ''out.csv'' 4 9 world_zero)) ''out.csv''
                 = Some (concat (map writerow_str (headers 9 # data)))
         \<and> (\<forall>row \<in> set data. \<forall>k < nat (numeric_cols 9). row ! k = [] \<or> decimal_2f (row ! k)))"
proof -
  have wr: "writable world_zero ''out.csv''" by (simp add: world_zero_fields)
  have z: "fst (random_py rng_zero) = 0"
    by (simp add: random_py_def next_bits_def rng_zero_def)
  have n: "normals (snd (random_py rng_half)) 0 = \<lparr>neg = False, mant = 67, expo = - 10\<rparr>"
    by (simp add: random_py_def next_bits_def rng_half_def)
  note a = numeric_fields [where i = 0 and row = "[]" and g = rng_half and r = "[]"
      and x = "\<lparr>neg = False, mant = 105750, expo = - 10\<rparr>" and w = world_zero
      and path = "''out.csv''" and rows = 4 and num_cols = 9]
  note b = numeric_fields [where i = 0 and row = "[]" and g = rng_zero and r = "[]"
      and w = world_zero and path = "''out.csv''" and rows = 4 and num_cols = 9]
  note c = numeric_fields [where g = "snd (random_py rng_half)"]
  from a [THEN conjunct1] obtain g1 where
    e: "numeric_loop [0] [] rng_half
          = ([] @ [if fst (random_py rng_half) < 0.05 then []
                   else format_2f (fst (gauss 100 50 (snd (random_py rng_half))))], g1)"
    by blast
  have 1: "fst (numeric_loop [0] [] rng_half) = [''103.27'']"
    unfolding e by (simp add: random_half gauss_half format_sample)
  from a [THEN conjunct2, THEN conjunct2, THEN conjunct2, THEN conjunct1]
  have 2: "decimal_2f ''103.27''" by (simp add: format_sample)
  from b [THEN conjunct1] obtain g2 where
    e0: "numeric_loop [0] [] rng_zero
          = ([] @ [if fst (random_py rng_zero) < 0.05 then []
                   else format_2f (fst (gauss 100 50 (snd (random_py rng_zero))))], g2)"
    by blast
  have 3: "fst (numeric_loop [0] [] rng_zero) = [[]]"
    unfolding e0 by (simp add: z)
  from c [THEN conjunct2, THEN conjunct2, THEN conjunct2, THEN conjunct2, THEN conjunct2,
      THEN conjunct2, THEN conjunct2, THEN conjunct1]
  have 4: "fst (gauss 100 50 (snd (random_py rng_half)))
        = fl_add \<lparr>neg = False, mant = 100, expo = 0\<rparr>
            (fl_mul \<lparr>neg = False, mant = 67, expo = - 10\<rparr> \<lparr>neg = False, mant = 50, expo = 0\<rparr>)"
    by (simp add: n std_normal_half)
  note 5 = a [THEN conjunct2, THEN conjunct2, THEN conjunct2, THEN conjunct2, THEN conjunct2,
      THEN conjunct2, THEN conjunct1, THEN mp, OF wr]
  from 1 2 3 4 gauss_half gauss_half_standard 5 show ?thesis by (intro conjI)
qed

text \<open>
  C6: a text field is empty exactly when the draw of \<^verbatim>\<open>random()\<close> is below 0.03;
  otherwise it has between 10 and 50 characters, all of them letters, digits or the
  space. The same holds for every text field of every row written.
\<close>

theorem text_fields:
  "(\<exists>f g'. text_loop [i] row g = Inr (row @ [f], g')
        \<and> (f = [] \<longleftrightarrow> fst (random_py g) < 0.03)
        \<and> (f = [] \<or> (10 \<le> length f \<and> length f \<le> 50
              \<and> (\<forall>c \<in> set f. c \<in> set (ascii_letters @ digits @ '' '')))))
   \<and> ascii_letters @ digits @ '' ''
        = ''abcdefghijklmnopqrstuvwxyzABCDEFGHIJKLMNOPQRSTUVWXYZ0123456789 ''
   \<and> (\<exists>fs g'. text_loop r row g = Inr (row @ fs, g') \<and> length fs = length r
         \<and> (\<forall>f \<in> set fs. f = [] \<or> (10 \<le> length f \<and> length f \<le> 50
               \<and> (\<forall>c \<in> set f. c \<in> set (ascii_letters @ digits @ '' '')))))
   \<and> (writable w path
       \<longrightarrow> (\<exists>data. files (snd (generate_test_csv path rows num_cols w)) path
                      = Some (concat (map writerow_str (headers num_cols # data)))
              \<and> (\<forall>row \<in> set data. \<forall>k < nat (text_cols num_cols).
                    row ! (nat (numeric_cols num_cols) + nat (categorical_cols num_cols) + k) = []
                    \<or> (10 \<le> length (row ! (nat (numeric_cols num_cols) + nat (categorical_cols num_cols) + k))
                       \<and> length (row ! (nat (numeric_cols num_cols) + nat (categorical_cols num_cols) + k)) \<le> 50
                       \<and> (\<forall>c \<in> set (row ! (nat (numeric_cols num_cols) + nat (categorical_cols num_cols) + k)).
                             c \<in> set (ascii_letters @ digits @ '' ''))))))"
proof -
  have step: "\<exists>f g'. text_loop [i] row g = Inr (row @ [f], g')
        \<and> (f = [] \<longleftrightarrow> fst (random_py g) < 0.03)
        \<and> (f = [] \<or> (10 \<le> length f \<and> length f \<le> 50
              \<and> (\<forall>c \<in> set f. c \<in> set (ascii_letters @ digits @ '' ''))))"
    using text_step [of i row g] unfolding text_ok_iff by blast
  have loop: "\<exists>fs g'. text_loop r row g = Inr (row @ fs, g') \<and> length fs = length r
         \<and> (\<forall>f \<in> set fs. f = [] \<or> (10 \<le> length f \<and> length f \<le> 50
               \<and> (\<forall>c \<in> set f. c \<in> set (ascii_letters @ digits @ '' ''))))"
    using text_loop_ok [of r row g] unfolding list_all_iff text_ok_iff by blast
  have run: "\<exists>data. files (snd (generate_test_csv path rows num_cols w)) path
                      = Some (concat (map writerow_str (headers num_cols # data)))
              \<and> (\<forall>row \<in> set data. \<forall>k < nat (text_cols num_cols).
                    row ! (nat (numeric_cols num_cols) + nat (categorical_cols num_cols) + k) = []
                    \<or> (10 \<le> length (row ! (nat (numeric_cols num_cols) + nat (categorical_cols num_cols) + k))
                       \<and> length (row ! (nat (numeric_cols num_cols) + nat (categorical_cols num_cols) + k)) \<le> 50
                       \<and> (\<forall>c \<in> set (row ! (nat (numeric_cols num_cols) + nat (categorical_cols num_cols) + k)).
                             c \<in> set (ascii_letters @ digits @ '' ''))))"
    if wr: "writable w path"
  proof -
    from run_rows [OF wr, of num_cols rows] obtain categories g0 data where
      d: "files (snd (generate_test_csv path rows num_cols w)) path
            = Some (concat (map writerow_str (headers num_cols # data)))"
         "list_all (row_ok num_cols categories) data" by blast
    have "\<forall>row \<in> set data. \<forall>k < nat (text_cols num_cols).
            text_ok (row ! (nat (numeric_cols num_cols) + nat (categorical_cols num_cols) + k))"
      using d(2) row_ok_text by (auto simp: list_all_iff)
    with d(1) show ?thesis unfolding text_ok_iff by blast
  qed
  show ?thesis using step alphabet_chars loop run by blast
qed

theorem text_fields_witness:
  "(\<exists>f g'. text_loop [0] [] rng_half = Inr ([f], g') \<and> f \<noteq> []
        \<and> 10 \<le> length f \<and> length f \<le> 50
        \<and> (\<forall>c \<in> set f. c \<in> set (ascii_letters @ digits @ '' '')))
   \<and> (\<exists>g'. text_loop [0] [] rng_zero = Inr ([[]], g'))
   \<and> (\<exists>data. files (snd (generate_test_csv ''out.csv'' 4 9 world_zero)) ''out.csv''
                 = Some (concat (map writerow_str (headers 9 # data)))
         \<and> (\<forall>row \<in> set data. \<forall>k < 3.
               row ! (3 + 3 + k) = []
               \<or> (10 \<le> length (row ! (3 + 3 + k)) \<and> length (row ! (3 + 3 + k)) \<le> 50
                  \<and> (\<forall>c \<in> set (row ! (3 + 3 + k)). c \<in> set (ascii_letters @ digits @ '' '')))))"
proof -
  have wr: "writable world_zero ''out.csv''" by (simp add: world_zero_fields)
  have z: "fst (random_py rng_zero) < 0.03"
    by (simp add: random_py_def next_bits_def rng_zero_def)
  have h: "\<not> fst (random_py rng_half) < 0.03" by (simp add: random_half)
  have n: "nat (numeric_cols 9) = 3" "nat (categorical_cols 9) = 3" "nat (text_cols 9) = 3"
    by (simp_all add: numeric_cols_def categorical_cols_def text_cols_def)
  note a = text_fields [of 0 "[]" rng_half "[]" world_zero "''out.csv''" 4 9]
  note b = text_fields [of 0 "[]" rng_zero "[]" world_zero "''out.csv''" 4 9]
  from a [THEN conjunct1] obtain f g' where
    f: "text_loop [0] [] rng_half = Inr ([] @ [f], g')"
       "f = [] \<longleftrightarrow> fst (random_py rng_half) < 0.03"
       "f = [] \<or> (10 \<le> length f \<and> length f \<le> 50
              \<and> (\<forall>c \<in> set f. c \<in> set (ascii_letters @ digits @ '' '')))"
    by blast
  have fn: "f \<noteq> []" using f(2) h by simp
  have 1: "\<exists>f g'. text_loop [0] [] rng_half = Inr ([f], g') \<and> f \<noteq> []
        \<and> 10 \<le> length f \<and> length f \<le> 50
        \<and> (\<forall>c \<in> set f. c \<in> set (ascii_letters @ digits @ '' ''))"
    using f(1,3) fn by (intro exI [of _ f] exI [of _ g']) simp
  from b [THEN conjunct1] obtain f0 g0 where
    f0: "text_loop [0] [] rng_zero = Inr ([] @ [f0], g0)"
        "f0 = [] \<longleftrightarrow> fst (random_py rng_zero) < 0.03"
    by blast
  have 2: "\<exists>g'. text_loop [0] [] rng_zero = Inr ([[]], g')"
    using f0 z by (intro exI [of _ g0]) simp
  note 3 = a [unfolded n, THEN conjunct2, THEN conjunct2, THEN conjunct2, THEN mp, OF wr]
  from 1 2 3 show ?thesis by (intro conjI)
qed

lemma rng_zero_next: "rng_zero\<lparr>bits := \<lambda>n. bits rng_zero (Suc n)\<rparr> = rng_zero"
  by (simp add: rng_zero_def)

lemma random_zero: "random_py rng_zero = (0, rng_zero)"
  by (simp add: random_py_def next_bits_def rng_zero_next) (simp add: rng_zero_def)

lemma text_null_zero: "text_loop [0] [] rng_zero = Inr ([[]], rng_zero)"
  by (simp add: random_zero)

lemma gen_row_one_zero: "gen_row 1 [] rng_zero = Inr ([[]], rng_zero)"
  by (simp add: gen_row_def numeric_cols_def categorical_cols_def text_cols_def py_range_def
      random_zero)

lemma headers_1: "headers 1 = [''text_0'']"
  by (simp add: headers_eq numeric_cols_def categorical_cols_def text_cols_def
      str_nat_small digit_char_def)

lemma header_line_1: "writerow_str [''text_0''] = ''text_0'' @ [CR, LF]"
  by (simp add: writerow_str_def render_field_def needs_quote_def special_chars_def
      comma_def dquote_def CR_def LF_def)

lemma null_line: "writerow_str [[]] = [dquote, dquote, CR, LF]"
  by (simp add: writerow_str_def)

theorem single_null_field_quoted:
  "files (snd (generate_test_csv ''out.csv'' 1 1 world_zero)) ''out.csv''
     = Some (''text_0'' @ [CR, LF] @ [dquote, dquote] @ [CR, LF])"
proof -
  have mk: "make_categories (py_range (categorical_cols 1)) (rand world_zero) = Inr ([], rng_zero)"
    by (simp add: categorical_cols_def py_range_def world_zero_fields)
  have wr: "writable world_zero ''out.csv''" by (simp add: world_zero_fields)
  let ?w3 = "start_world ''out.csv'' 1 rng_zero world_zero"
  have r3: "rand ?w3 = rng_zero" by (simp add: start_world_def writerow_def)
  let ?w4 = "writerow ''out.csv'' [[]] (?w3\<lparr>rand := rng_zero\<rparr>)"
  have loop: "rows_loop (py_range 1) ''out.csv'' 1 1 [] (clock world_zero 0) ?w3 = (Inr (), ?w4)"
    by (simp add: py_range_def r3 gen_row_one_zero)
  have f4: "files ?w4 ''out.csv'' = Some (writerow_str (headers 1) @ writerow_str [[]])"
    by (rule writerow_files) (simp add: start_world_fields)
  note eq = run_eq [OF mk wr loop f4]
  show ?thesis unfolding eq using f4 by (simp add: headers_1 header_line_1 null_line)
qed

lemma single_column:
  assumes "nat (numeric_cols c) + nat (categorical_cols c) + nat (text_cols c) = 1"
  shows "c = 1 \<or> c = - 1"
proof -
  let ?q = "c div 3"
  have q: "?q \<le> 0"
  proof (rule ccontr)
    assume "\<not> ?q \<le> 0"
    then have "2 \<le> nat (numeric_cols c) + nat (categorical_cols c)"
      by (simp add: numeric_cols_def categorical_cols_def)
    then show False using assms by simp
  qed
  then have "nat (c - ?q - ?q) = 1"
    using assms by (simp add: numeric_cols_def categorical_cols_def text_cols_def)
  then have "c - ?q - ?q = 1" by linarith
  with q show ?thesis by presburger
qed

lemma count_CR_row: "list_all plain row \<Longrightarrow> count_list (writerow_str row) CR = 1"
proof (cases "row = [[]]")
  case True
  then show ?thesis by (simp add: writerow_str_def CR_def LF_def dquote_def)
next
  case False
  assume p: "list_all plain row"
  have "count_list (join_fields row) CR = 0" using plain_join [OF p] by (simp add: count_list_0_iff)
  then show ?thesis by (simp add: writerow_str_plain [OF p False] CR_def LF_def)
qed

lemma last_writerow: "last (writerow_str row) = LF"
  by (simp add: writerow_str_def)

lemma record_one_line:
  assumes "list_all plain r" "length r = nat (numeric_cols c) + nat (categorical_cols c) + nat (text_cols c)"
  shows "(\<forall>f \<in> set r. comma \<notin> set f \<and> dquote \<notin> set f \<and> CR \<notin> set f \<and> LF \<notin> set f)
       \<and> (r \<noteq> [[]] \<longrightarrow> writerow_str r = join_fields r @ [CR, LF])
       \<and> (r = [[]] \<longrightarrow> writerow_str r = [dquote, dquote, CR, LF] \<and> (c = 1 \<or> c = - 1))
       \<and> count_list (writerow_str r) LF = 1 \<and> count_list (writerow_str r) CR = 1
       \<and> last (writerow_str r) = LF"
proof -
  have a: "\<forall>f \<in> set r. comma \<notin> set f \<and> dquote \<notin> set f \<and> CR \<notin> set f \<and> LF \<notin> set f"
    using assms(1) by (simp add: list_all_iff plain_iff)
  have b: "r \<noteq> [[]] \<longrightarrow> writerow_str r = join_fields r @ [CR, LF]"
    using writerow_str_plain [OF assms(1)] by simp
  have c: "r = [[]] \<longrightarrow> writerow_str r = [dquote, dquote, CR, LF] \<and> (c = 1 \<or> c = - 1)"
  proof
    assume e: "r = [[]]"
    then have "nat (numeric_cols c) + nat (categorical_cols c) + nat (text_cols c) = 1"
      using assms(2) by simp
    then have "c = 1 \<or> c = - 1" by (rule single_column)
    then show "writerow_str r = [dquote, dquote, CR, LF] \<and> (c = 1 \<or> c = - 1)"
      using e by (simp add: null_line)
  qed
  show ?thesis
    using a b c count_LF_row [OF assms(1)] count_CR_row [OF assms(1)] last_writerow [of r]
    by (intro conjI)
qed

text \<open>
  C9, as amended: every field value the generator emits, that is every header name, every
  formatted number, every category label, every text and the empty field, has no comma,
  no double quote and no line break. Hence every record is written as its fields joined
  by commas, unquoted, with one exception: a record that consists of a single empty
  field, which only a run with \<open>column_count\<close> 1 or -1 produces, is written as a pair of
  double quotes. Every record occupies exactly one physical line, ended by CR LF.
\<close>

theorem fields_plain:
  "(\<forall>h \<in> set (headers num_cols). plain h)
   \<and> plain (format_2f x)
   \<and> (\<forall>f. text_ok f \<longrightarrow> plain f)
   \<and> plain []
   \<and> (\<exists>categories g.
         make_categories (py_range (categorical_cols num_cols)) (rand w) = Inr (categories, g)
         \<and> (\<forall>pool \<in> set categories. \<forall>label \<in> set pool. plain label))
   \<and> (writable w path
       \<longrightarrow> (\<exists>data. files (snd (generate_test_csv path rows num_cols w)) path
                      = Some (concat (map writerow_str (headers num_cols # data)))
              \<and> (\<forall>r \<in> set (headers num_cols # data).
                    (\<forall>f \<in> set r. comma \<notin> set f \<and> dquote \<notin> set f \<and> CR \<notin> set f \<and> LF \<notin> set f)
                    \<and> (r \<noteq> [[]] \<longrightarrow> writerow_str r = join_fields r @ [CR, LF])
                    \<and> (r = [[]] \<longrightarrow> writerow_str r = [dquote, dquote, CR, LF]
                                        \<and> (num_cols = 1 \<or> num_cols = - 1))
                    \<and> count_list (writerow_str r) LF = 1
                    \<and> count_list (writerow_str r) CR = 1
                    \<and> last (writerow_str r) = LF)))"
proof -
  have hs: "\<forall>h \<in> set (headers num_cols). plain h"
    using plain_headers [of num_cols] by (simp add: list_all_iff)
  have tx: "\<forall>f. text_ok f \<longrightarrow> plain f" using plain_text by blast
  have em: "plain []" by (simp add: plain_def)
  from make_categories_cats_ok [of num_cols "rand w"] obtain categories g where
    mk: "make_categories (py_range (categorical_cols num_cols)) (rand w) = Inr (categories, g)"
    and ok: "cats_ok num_cols categories" by blast
  have "\<forall>pool \<in> set categories. \<forall>label \<in> set pool. plain label"
  proof
    fix pool assume "pool \<in> set categories"
    then obtain i where "i < length categories" "pool = categories ! i"
      by (auto simp: in_set_conv_nth)
    then have "pool_ok i pool" using ok by (simp add: cats_ok_def)
    then show "\<forall>label \<in> set pool. plain label"
      using plain_pool by (auto simp: list_all_iff)
  qed
  with mk have pools: "\<exists>categories g.
         make_categories (py_range (categorical_cols num_cols)) (rand w) = Inr (categories, g)
         \<and> (\<forall>pool \<in> set categories. \<forall>label \<in> set pool. plain label)" by blast
  have run: "\<exists>data. files (snd (generate_test_csv path rows num_cols w)) path
                      = Some (concat (map writerow_str (headers num_cols # data)))
              \<and> (\<forall>r \<in> set (headers num_cols # data).
                    (\<forall>f \<in> set r. comma \<notin> set f \<and> dquote \<notin> set f \<and> CR \<notin> set f \<and> LF \<notin> set f)
                    \<and> (r \<noteq> [[]] \<longrightarrow> writerow_str r = join_fields r @ [CR, LF])
                    \<and> (r = [[]] \<longrightarrow> writerow_str r = [dquote, dquote, CR, LF]
                                        \<and> (num_cols = 1 \<or> num_cols = - 1))
                    \<and> count_list (writerow_str r) LF = 1
                    \<and> count_list (writerow_str r) CR = 1
                    \<and> last (writerow_str r) = LF)"
    if wr: "writable w path"
  proof -
    from run_file [OF mk wr, of rows] obtain data where
      d: "files (snd (generate_test_csv path rows num_cols w)) path
            = Some (concat (map writerow_str (headers num_cols # data)))"
         "list_all (row_ok num_cols categories) data" by blast
    have "list_all plain r \<and> length r = nat (numeric_cols num_cols)
            + nat (categorical_cols num_cols) + nat (text_cols num_cols)"
      if "r \<in> set (headers num_cols # data)" for r
    proof (cases "r = headers num_cols")
      case True
      then show ?thesis using plain_headers [of num_cols] length_headers [of num_cols] by simp
    next
      case False
      then have "row_ok num_cols categories r" using that d(2) by (auto simp: list_all_iff)
      then show ?thesis using plain_row [OF ok] by (simp add: row_ok_def Let_def)
    qed
    then have "\<forall>r \<in> set (headers num_cols # data).
                    (\<forall>f \<in> set r. comma \<notin> set f \<and> dquote \<notin> set f \<and> CR \<notin> set f \<and> LF \<notin> set f)
                    \<and> (r \<noteq> [[]] \<longrightarrow> writerow_str r = join_fields r @ [CR, LF])
                    \<and> (r = [[]] \<longrightarrow> writerow_str r = [dquote, dquote, CR, LF]
                                        \<and> (num_cols = 1 \<or> num_cols = - 1))
                    \<and> count_list (writerow_str r) LF = 1
                    \<and> count_list (writerow_str r) CR = 1
                    \<and> last (writerow_str r) = LF"
      using record_one_line by blast
    with d(1) show ?thesis by blast
  qed
  from hs plain_format [of x] tx em pools run show ?thesis by (intro conjI impI)
qed

theorem fields_plain_witness:
  "plain ''text_0''
   \<and> (\<exists>data. files (snd (generate_test_csv ''out.csv'' 1 1 world_zero)) ''out.csv''
                 = Some (concat (map writerow_str (headers 1 # data)))
         \<and> (\<forall>r \<in> set (headers 1 # data).
               (\<forall>f \<in> set r. comma \<notin> set f \<and> dquote \<notin> set f \<and> CR \<notin> set f \<and> LF \<notin> set f)
               \<and> (r \<noteq> [[]] \<longrightarrow> writerow_str r = join_fields r @ [CR, LF])
               \<and> (r = [[]] \<longrightarrow> writerow_str r = [dquote, dquote, CR, LF]
                                   \<and> ((1::int) = 1 \<or> (1::int) = - 1))
               \<and> count_list (writerow_str r) LF = 1
               \<and> count_list (writerow_str r) CR = 1
               \<and> last (writerow_str r) = LF))"
proof -
  have wr: "writable world_zero ''out.csv''" by (simp add: world_zero_fields)
  note a = fields_plain [of 1 "\<lparr>neg = False, mant = 0, expo = 0\<rparr>" world_zero "''out.csv''" 1]
  from a [THEN conjunct1] have 1: "plain ''text_0''" by (simp add: headers_1)
  note 2 = a [THEN conjunct2, THEN conjunct2, THEN conjunct2, THEN conjunct2, THEN conjunct2,
      THEN mp, OF wr]
  from 1 2 show ?thesis by (intro conjI)
qed

end
